theory Spec2Isabelle
  imports Main
begin

section \<open>The balanced ordered map \<open>kaseev::BST\<close> (S4/BinarySearchTree.hpp)\<close>

text \<open>
  The container is a class template over \<open>Key\<close>, \<open>Value\<close> and \<open>Compare\<close>.  Keys are
  modelled by a linearly ordered type and the comparator \<open>comp(a, b)\<close> by \<open>a < b\<close>: two
  keys that the comparator does not separate are taken to be the same key.
  The first part of the development embeds the member functions as functions on a tree
  value: a \<open>shared_ptr<Node>\<close> is the subtree it owns, the null pointer is \<open>Null\<close>.
  The member functions \<open>insert\<close>, \<open>erase\<close>, \<open>balance\<close>, \<open>find\<close>, \<open>minValueNode\<close>, \<open>clone\<close>
  and the rotations never read the field \<open>parent\<close> except to write it again (the last
  statement of a rotation), so it is left out of the tree value; the second part keeps
  it, in an explicit store of nodes.

  \<open>height\<close> is a C++ \<open>int\<close> and \<open>nodeCount\<close> a \<open>size_t\<close>; both are modelled without
  wrap-around (\<open>int\<close> and \<open>nat\<close>): a stored height is bounded by the number of nodes.

  Dereferencing a null pointer is undefined behaviour in the source; the model returns
  the error value \<open>NullDeref\<close> at every such place (and, in the second part, \<open>Dangling\<close>
  where a pointer to a destroyed node is dereferenced).
\<close>

datatype error = KeyNotFound | NullDeref | Dangling

datatype ('k, 'v) node =
  Null
  | Node "('k, 'v) node" 'k 'v int "('k, 'v) node"
    \<comment> \<open>left, data.first, data.second, height, right\<close>

text \<open>
  Modelled from the spec: the constructor \<open>Node(key, value, parent)\<close> is declared in the
  source but its definition is missing.  A node created by it has no children and, by the
  spec's convention (height of an absent child 0, height of a node 1 + the maximum of its
  children's heights), the stored height 1.
\<close>

definition initHeight :: int where
  "initHeight = 1"

definition newNode :: "'k \<Rightarrow> 'v \<Rightarrow> ('k, 'v) node" where
  "newNode k v = Node Null k v initHeight Null"

fun height :: "('k, 'v) node \<Rightarrow> int" where
  "height Null = 0"
| "height (Node l k v h r) = h"

fun balanceFactor :: "('k, 'v) node \<Rightarrow> int" where
  "balanceFactor Null = 0"
| "balanceFactor (Node l k v h r) = height l - height r"

fun updateHeight :: "('k, 'v) node \<Rightarrow> ('k, 'v) node" where
  "updateHeight Null = Null"
| "updateHeight (Node l k v h r) = Node l k v (1 + max (height l) (height r)) r"

fun rotateRight :: "('k, 'v) node \<Rightarrow> error + ('k, 'v) node" where
  "rotateRight (Node (Node a xk xv xh b) yk yv yh c) =
     Inr (updateHeight (Node a xk xv xh (updateHeight (Node b yk yv yh c))))"
| "rotateRight (Node Null yk yv yh c) = Inl NullDeref"
| "rotateRight Null = Inl NullDeref"

fun rotateLeft :: "('k, 'v) node \<Rightarrow> error + ('k, 'v) node" where
  "rotateLeft (Node a xk xv xh (Node b yk yv yh c)) =
     Inr (updateHeight (Node (updateHeight (Node a xk xv xh b)) yk yv yh c))"
| "rotateLeft (Node a xk xv xh Null) = Inl NullDeref"
| "rotateLeft Null = Inl NullDeref"

definition balance :: "('k, 'v) node \<Rightarrow> error + ('k, 'v) node" where
  "balance n0 =
     (let n = updateHeight n0 in
      if balanceFactor n > 1 then
        (case n of
           Null \<Rightarrow> Inl NullDeref
         | Node l k v h r \<Rightarrow>
             if balanceFactor l < 0 then
               (case rotateLeft l of
                  Inl e \<Rightarrow> Inl e
                | Inr l' \<Rightarrow> rotateRight (Node l' k v h r))
             else rotateRight (Node l k v h r))
      else if balanceFactor n < - 1 then
        (case n of
           Null \<Rightarrow> Inl NullDeref
         | Node l k v h r \<Rightarrow>
             if balanceFactor r > 0 then
               (case rotateRight r of
                  Inl e \<Rightarrow> Inl e
                | Inr r' \<Rightarrow> rotateLeft (Node l k v h r'))
             else rotateLeft (Node l k v h r))
      else Inr n)"

text \<open>
  The private \<open>insert\<close>.  It increments the member \<open>nodeCount\<close> when it creates a node, so
  the count is passed in and returned.
\<close>

fun insert_node ::
  "('k::linorder, 'v) node \<Rightarrow> 'k \<Rightarrow> 'v \<Rightarrow> nat \<Rightarrow> error + (('k, 'v) node \<times> nat)" where
  "insert_node Null key val cnt = Inr (newNode key val, cnt + 1)"
| "insert_node (Node l k v h r) key val cnt =
     (if key < k then
        (case insert_node l key val cnt of
           Inl e \<Rightarrow> Inl e
         | Inr (l', cnt') \<Rightarrow>
             (case balance (Node l' k v h r) of Inl e \<Rightarrow> Inl e | Inr n \<Rightarrow> Inr (n, cnt')))
      else if k < key then
        (case insert_node r key val cnt of
           Inl e \<Rightarrow> Inl e
         | Inr (r', cnt') \<Rightarrow>
             (case balance (Node l k v h r') of Inl e \<Rightarrow> Inl e | Inr n \<Rightarrow> Inr (n, cnt')))
      else
        (case balance (Node l k val h r) of Inl e \<Rightarrow> Inl e | Inr n \<Rightarrow> Inr (n, cnt)))"

fun minValueNode :: "('k, 'v) node \<Rightarrow> error + ('k, 'v) node" where
  "minValueNode Null = Inl NullDeref"
| "minValueNode (Node Null k v h r) = Inr (Node Null k v h r)"
| "minValueNode (Node (Node a lk lv lh b) k v h r) = minValueNode (Node a lk lv lh b)"

text \<open>The private \<open>erase\<close>.  It never touches \<open>nodeCount\<close>.\<close>

fun erase_node :: "('k::linorder, 'v) node \<Rightarrow> 'k \<Rightarrow> error + ('k, 'v) node" where
  "erase_node Null key = Inr Null"
| "erase_node (Node l k v h r) key =
     (if key < k then
        (case erase_node l key of
           Inl e \<Rightarrow> Inl e
         | Inr l' \<Rightarrow> balance (Node l' k v h r))
      else if k < key then
        (case erase_node r key of
           Inl e \<Rightarrow> Inl e
         | Inr r' \<Rightarrow> balance (Node l k v h r'))
      else if l = Null then Inr r
      else if r = Null then Inr l
      else
        (case minValueNode r of
           Inl e \<Rightarrow> Inl e
         | Inr Null \<Rightarrow> Inl NullDeref
         | Inr (Node ml mk mv mh mr) \<Rightarrow>
             (case erase_node r mk of
                Inl e \<Rightarrow> Inl e
              | Inr r' \<Rightarrow> balance (Node l mk mv h r'))))"

text \<open>The private, recursive \<open>find\<close>; the result is the node found, \<open>Null\<close> for none.\<close>

fun find_node :: "('k::linorder, 'v) node \<Rightarrow> 'k \<Rightarrow> ('k, 'v) node" where
  "find_node Null key = Null"
| "find_node (Node l k v h r) key =
     (if key < k then find_node l key
      else if k < key then find_node r key
      else Node l k v h r)"

text \<open>
  \<open>clone\<close> builds every node with the constructor (key and value only), which leaves the
  height at its initial value, and then sets the two children; it does not copy \<open>height\<close>.
\<close>

fun clone :: "('k, 'v) node \<Rightarrow> ('k, 'v) node" where
  "clone Null = Null"
| "clone (Node l k v h r) = Node (clone l) k v initHeight (clone r)"

subsection \<open>The container and its public member functions\<close>

record ('k, 'v) bst =
  root :: "('k, 'v) node"
  nodeCount :: nat

definition BST_empty :: "('k, 'v) bst" where
  "BST_empty = \<lparr>root = Null, nodeCount = 0\<rparr>"

definition BST_copy :: "('k, 'v) bst \<Rightarrow> ('k, 'v) bst" where
  "BST_copy other = \<lparr>root = clone (root other), nodeCount = nodeCount other\<rparr>"

text \<open>
  The move constructor takes \<open>const BST &&other\<close>.  \<open>std::move(other.root)\<close> is then a
  const rvalue, for which \<open>shared_ptr\<close> has only the copy assignment: the new container
  shares the root and \<open>other.root\<close> keeps it.  The result is the pair of the new container
  and \<open>other\<close> after the call.
\<close>

definition BST_move :: "('k, 'v) bst \<Rightarrow> ('k, 'v) bst \<times> ('k, 'v) bst" where
  "BST_move other =
     (\<lparr>root = root other, nodeCount = nodeCount other\<rparr>, other\<lparr>nodeCount := 0\<rparr>)"

text \<open>
  The two assignment operators, for \<open>this\<close> and \<open>other\<close> different objects (on
  self-assignment both return at once).  The copy assignment clones as the copy constructor
  does.  The move assignment takes a non-const \<open>other\<close>: the root is moved out of it, and
  \<open>other.nodeCount\<close> is left as it was; the result is the pair of \<open>*this\<close> and \<open>other\<close> after
  the call.
\<close>

definition BST_assign_copy :: "('k, 'v) bst \<Rightarrow> ('k, 'v) bst \<Rightarrow> ('k, 'v) bst" where
  "BST_assign_copy this other = \<lparr>root = clone (root other), nodeCount = nodeCount other\<rparr>"

definition BST_assign_move :: "('k, 'v) bst \<Rightarrow> ('k, 'v) bst \<Rightarrow> ('k, 'v) bst \<times> ('k, 'v) bst" where
  "BST_assign_move this other =
     (\<lparr>root = root other, nodeCount = nodeCount other\<rparr>, other\<lparr>root := Null\<rparr>)"

definition push :: "('k::linorder, 'v) bst \<Rightarrow> 'k \<Rightarrow> 'v \<Rightarrow> error + ('k, 'v) bst" where
  "push c key val =
     (case insert_node (root c) key val (nodeCount c) of
        Inl e \<Rightarrow> Inl e
      | Inr (n, cnt) \<Rightarrow> Inr \<lparr>root = n, nodeCount = cnt\<rparr>)"

definition insert_pair :: "('k::linorder, 'v) bst \<Rightarrow> 'k \<times> 'v \<Rightarrow> error + ('k, 'v) bst" where
  "insert_pair c p = push c (fst p) (snd p)"

definition drop_key :: "('k::linorder, 'v) bst \<Rightarrow> 'k \<Rightarrow> error + ('k, 'v) bst" where
  "drop_key c key =
     (case erase_node (root c) key of
        Inl e \<Rightarrow> Inl e
      | Inr n \<Rightarrow> Inr (c\<lparr>root := n\<rparr>))"

definition erase_key :: "('k::linorder, 'v) bst \<Rightarrow> 'k \<Rightarrow> error + ('k, 'v) bst" where
  "erase_key c key = drop_key c key"

definition clear :: "('k, 'v) bst \<Rightarrow> ('k, 'v) bst" where
  "clear c = \<lparr>root = Null, nodeCount = 0\<rparr>"

definition size_of :: "('k, 'v) bst \<Rightarrow> nat" where
  "size_of c = nodeCount c"

definition empty_bst :: "('k, 'v) bst \<Rightarrow> bool" where
  "empty_bst c = (nodeCount c = 0)"

text \<open>
  The const \<open>operator[]\<close>.  It is a const member function and writes nothing; the container
  is returned beside the result so that this is part of the model.
\<close>

definition indexedRead ::
  "('k::linorder, 'v) bst \<Rightarrow> 'k \<Rightarrow> (error + 'v) \<times> ('k, 'v) bst" where
  "indexedRead c key =
     (case find_node (root c) key of
        Null \<Rightarrow> (Inl KeyNotFound, c)
      | Node l k v h r \<Rightarrow> (Inr v, c))"

text \<open>
  The non-const \<open>operator[]\<close> has no embedding.  Where the key is not found it calls
  \<open>insert(std::move(root), key, Value())\<close>, with three arguments; the members named
  \<open>insert\<close> are the public one, with one parameter, and the private one, with four and no
  default argument.  No member accepts the call, so the operator cannot be instantiated.
\<close>

text \<open>The public \<open>find\<close>, a loop; the position returned is the node, \<open>Null\<close> for \<open>end()\<close>.\<close>

fun find_loop :: "('k::linorder, 'v) node \<Rightarrow> 'k \<Rightarrow> ('k, 'v) node" where
  "find_loop Null key = Null"
| "find_loop (Node l k v h r) key =
     (if key < k then find_loop l key
      else if k < key then find_loop r key
      else Node l k v h r)"

definition find_key :: "('k::linorder, 'v) bst \<Rightarrow> 'k \<Rightarrow> ('k, 'v) node" where
  "find_key c key = find_loop (root c) key"

definition count_key :: "('k::linorder, 'v) bst \<Rightarrow> 'k \<Rightarrow> nat" where
  "count_key c key = (if find_key c key \<noteq> Null then 1 else 0)"

subsection \<open>Observations on a tree\<close>

fun inorder :: "('k, 'v) node \<Rightarrow> ('k \<times> 'v) list" where
  "inorder Null = []"
| "inorder (Node l k v h r) = inorder l @ (k, v) # inorder r"

fun nodes :: "('k, 'v) node \<Rightarrow> nat" where
  "nodes Null = 0"
| "nodes (Node l k v h r) = nodes l + 1 + nodes r"

fun keys :: "('k, 'v) node \<Rightarrow> 'k set" where
  "keys Null = {}"
| "keys (Node l k v h r) = keys l \<union> {k} \<union> keys r"

text \<open>The order invariant, node by node.\<close>

fun ordered :: "('k::linorder, 'v) node \<Rightarrow> bool" where
  "ordered Null = True"
| "ordered (Node l k v h r) =
     (ordered l \<and> ordered r \<and> (\<forall>x \<in> keys l. x < k) \<and> (\<forall>x \<in> keys r. k < x))"

text \<open>The real height of a tree, and the height invariant with the stored fields.\<close>

fun depth :: "('k, 'v) node \<Rightarrow> int" where
  "depth Null = 0"
| "depth (Node l k v h r) = 1 + max (depth l) (depth r)"

fun avl :: "('k, 'v) node \<Rightarrow> bool" where
  "avl Null = True"
| "avl (Node l k v h r) =
     (avl l \<and> avl r \<and> \<bar>height l - height r\<bar> \<le> 1 \<and> h = 1 + max (height l) (height r))"

text \<open>Every stored height is at least 1.\<close>

fun hpos :: "('k, 'v) node \<Rightarrow> bool" where
  "hpos Null = True"
| "hpos (Node l k v h r) = (hpos l \<and> hpos r \<and> 1 \<le> h)"

subsection \<open>Container states that the public member functions produce\<close>

text \<open>
  The states built from the empty container by the copy constructor, the two assignment
  operators, \<open>push\<close>, \<open>insert\<close>, \<open>drop\<close>, \<open>erase\<close> and \<open>clear\<close>.
  The move constructor and the non-const \<open>operator[]\<close> are left out: neither can be
  instantiated (the first assigns to a member of its const parameter, and would leave two
  containers sharing their nodes).  \<open>swap\<close> is declared in the source and not defined.
\<close>

inductive reachable :: "('k::linorder, 'v) bst \<Rightarrow> bool" where
  r_empty: "reachable BST_empty"
| r_copy: "reachable c \<Longrightarrow> reachable (BST_copy c)"
| r_assign: "reachable c \<Longrightarrow> reachable (BST_assign_copy this c)"
| r_move_to: "reachable c \<Longrightarrow> reachable (fst (BST_assign_move this c))"
| r_move_from: "reachable c \<Longrightarrow> reachable (snd (BST_assign_move this c))"
| r_push: "reachable c \<Longrightarrow> push c key val = Inr c' \<Longrightarrow> reachable c'"
| r_insert: "reachable c \<Longrightarrow> insert_pair c p = Inr c' \<Longrightarrow> reachable c'"
| r_drop: "reachable c \<Longrightarrow> drop_key c key = Inr c' \<Longrightarrow> reachable c'"
| r_erase: "reachable c \<Longrightarrow> erase_key c key = Inr c' \<Longrightarrow> reachable c'"
| r_clear: "reachable c \<Longrightarrow> reachable (clear c)"

section \<open>The same member functions on an explicit store of nodes\<close>

text \<open>
  The second part keeps what the tree values leave out: the identity of a node and its
  \<open>parent\<close> link.  A node lives at an address of the store; a \<open>shared_ptr<Node>\<close>, a
  \<open>weak_ptr<Node>\<close> or a \<open>Node *\<close> is an address or null (\<open>None\<close>).  \<open>make_shared\<close> and
  \<open>make_unique\<close> take the next fresh address, so no address is used twice.

  A node is destroyed when its last \<open>shared_ptr\<close> goes away.  In \<open>erase\<close> this is the
  parameter \<open>node\<close> at the two early returns (the callers move their pointer in), and the
  model removes the cell there; a \<open>weak_ptr\<close> to the node then locks to null.

  A \<open>shared_ptr\<close> that is moved from is assigned again before it is read, so the null it holds
  in between is not written to the store.

  A member function returns \<open>None\<close> when it does not return, \<open>Some (Inl e)\<close> when it runs into the
  undefined behaviour \<open>e\<close>, and \<open>Some (Inr x)\<close> when it returns \<open>x\<close>.
\<close>

type_synonym ptr = "nat option"

record ('k, 'v) cell =
  ckey :: 'k
  cval :: 'v
  cleft :: ptr
  cright :: ptr
  cparent :: ptr
  cheight :: int

record ('k, 'v) store =
  cells :: "nat \<Rightarrow> ('k, 'v) cell option"
  fresh :: nat

abbreviation ret :: "'a \<Rightarrow> (error + 'a) option" where
  "ret x \<equiv> Some (Inr x)"

abbreviation fail :: "error \<Rightarrow> (error + 'a) option" where
  "fail e \<equiv> Some (Inl e)"

abbreviation bnd ::
  "(error + 'a) option \<Rightarrow> ('a \<Rightarrow> (error + 'b) option) \<Rightarrow> (error + 'b) option" where
  "bnd m f \<equiv> Option.bind m (\<lambda>r. case r of Inl e \<Rightarrow> Some (Inl e) | Inr x \<Rightarrow> f x)"

text \<open>\<open>p->\<close>, for a pointer \<open>p\<close>: the address and the node found there.\<close>

definition get :: "('k, 'v) store \<Rightarrow> ptr \<Rightarrow> (error + nat \<times> ('k, 'v) cell) option" where
  "get s p =
     (case p of
        None \<Rightarrow> fail NullDeref
      | Some a \<Rightarrow> (case cells s a of None \<Rightarrow> fail Dangling | Some c \<Rightarrow> ret (a, c)))"

definition put :: "('k, 'v) store \<Rightarrow> nat \<Rightarrow> ('k, 'v) cell \<Rightarrow> ('k, 'v) store" where
  "put s a c = s\<lparr>cells := (cells s)(a \<mapsto> c)\<rparr>"

definition alloc :: "('k, 'v) store \<Rightarrow> ('k, 'v) cell \<Rightarrow> nat \<times> ('k, 'v) store" where
  "alloc s c = (fresh s, s\<lparr>cells := (cells s)(fresh s \<mapsto> c), fresh := fresh s + 1\<rparr>)"

definition free :: "('k, 'v) store \<Rightarrow> nat \<Rightarrow> ('k, 'v) store" where
  "free s a = s\<lparr>cells := (cells s)(a := None)\<rparr>"

text \<open>\<open>w.lock()\<close> for a \<open>weak_ptr\<close>: null when the node has been destroyed.\<close>

definition lock :: "('k, 'v) store \<Rightarrow> ptr \<Rightarrow> ptr" where
  "lock s p = (case p of None \<Rightarrow> None | Some a \<Rightarrow> if cells s a = None then None else Some a)"

definition set_left :: "('k, 'v) store \<Rightarrow> ptr \<Rightarrow> ptr \<Rightarrow> (error + ('k, 'v) store) option" where
  "set_left s p q = bnd (get s p) (\<lambda>(a, c). ret (put s a (c\<lparr>cleft := q\<rparr>)))"

definition set_right :: "('k, 'v) store \<Rightarrow> ptr \<Rightarrow> ptr \<Rightarrow> (error + ('k, 'v) store) option" where
  "set_right s p q = bnd (get s p) (\<lambda>(a, c). ret (put s a (c\<lparr>cright := q\<rparr>)))"

definition set_parent :: "('k, 'v) store \<Rightarrow> ptr \<Rightarrow> ptr \<Rightarrow> (error + ('k, 'v) store) option" where
  "set_parent s p q = bnd (get s p) (\<lambda>(a, c). ret (put s a (c\<lparr>cparent := q\<rparr>)))"

definition set_data ::
  "('k, 'v) store \<Rightarrow> ptr \<Rightarrow> 'k \<Rightarrow> 'v \<Rightarrow> (error + ('k, 'v) store) option" where
  "set_data s p k v = bnd (get s p) (\<lambda>(a, c). ret (put s a (c\<lparr>ckey := k, cval := v\<rparr>)))"

definition height_h :: "('k, 'v) store \<Rightarrow> ptr \<Rightarrow> (error + int) option" where
  "height_h s p =
     (case p of None \<Rightarrow> ret 0 | Some a \<Rightarrow> bnd (get s p) (\<lambda>(a, c). ret (cheight c)))"

definition balanceFactor_h :: "('k, 'v) store \<Rightarrow> ptr \<Rightarrow> (error + int) option" where
  "balanceFactor_h s p =
     (case p of
        None \<Rightarrow> ret 0
      | Some a \<Rightarrow>
          bnd (get s p) (\<lambda>(a, c).
          bnd (height_h s (cleft c)) (\<lambda>hl.
          bnd (height_h s (cright c)) (\<lambda>hr. ret (hl - hr)))))"

definition updateHeight_h :: "('k, 'v) store \<Rightarrow> ptr \<Rightarrow> (error + ('k, 'v) store) option" where
  "updateHeight_h s p =
     (case p of
        None \<Rightarrow> ret s
      | Some a \<Rightarrow>
          bnd (get s p) (\<lambda>(a, c).
          bnd (height_h s (cleft c)) (\<lambda>hl.
          bnd (height_h s (cright c)) (\<lambda>hr.
          ret (put s a (c\<lparr>cheight := 1 + max hl hr\<rparr>))))))"

definition rotateRight_h ::
  "('k, 'v) store \<Rightarrow> ptr \<Rightarrow> (error + ptr \<times> ('k, 'v) store) option" where
  "rotateRight_h s y =
     bnd (get s y) (\<lambda>(ya, yc). let x = cleft yc in
     bnd (get s x) (\<lambda>(xa, xc). let b = cright xc in
     bnd (set_left s y b) (\<lambda>s1.
     bnd (if b \<noteq> None then set_parent s1 b y else ret s1) (\<lambda>s2.
     bnd (set_right s2 x y) (\<lambda>s3.
     bnd (set_parent s3 y x) (\<lambda>s4.
     bnd (updateHeight_h s4 y) (\<lambda>s5.
     bnd (updateHeight_h s5 x) (\<lambda>s6.
     bnd (get s6 y) (\<lambda>(ya', yc').
     bnd (set_parent s6 x (lock s6 (cparent yc'))) (\<lambda>s7.
     ret (x, s7)))))))))))"

definition rotateLeft_h ::
  "('k, 'v) store \<Rightarrow> ptr \<Rightarrow> (error + ptr \<times> ('k, 'v) store) option" where
  "rotateLeft_h s x =
     bnd (get s x) (\<lambda>(xa, xc). let y = cright xc in
     bnd (get s y) (\<lambda>(ya, yc). let b = cleft yc in
     bnd (set_right s x b) (\<lambda>s1.
     bnd (if b \<noteq> None then set_parent s1 b x else ret s1) (\<lambda>s2.
     bnd (set_left s2 y x) (\<lambda>s3.
     bnd (set_parent s3 x y) (\<lambda>s4.
     bnd (updateHeight_h s4 x) (\<lambda>s5.
     bnd (updateHeight_h s5 y) (\<lambda>s6.
     bnd (get s6 x) (\<lambda>(xa', xc').
     bnd (set_parent s6 y (lock s6 (cparent xc'))) (\<lambda>s7.
     ret (y, s7)))))))))))"

definition balance_h ::
  "('k, 'v) store \<Rightarrow> ptr \<Rightarrow> (error + ptr \<times> ('k, 'v) store) option" where
  "balance_h s n =
     bnd (updateHeight_h s n) (\<lambda>s1.
     bnd (balanceFactor_h s1 n) (\<lambda>bf.
     if bf > 1 then
       bnd (get s1 n) (\<lambda>(na, nc).
       bnd (balanceFactor_h s1 (cleft nc)) (\<lambda>bl.
       bnd (if bl < 0 then
              bnd (rotateLeft_h s1 (cleft nc)) (\<lambda>(l', s2). set_left s2 n l')
            else ret s1) (\<lambda>s3.
       bnd (rotateRight_h s3 n) (\<lambda>(newRoot, s4).
       bnd (set_parent s4 newRoot None) (\<lambda>s5.
       ret (newRoot, s5))))))
     else if bf < - 1 then
       bnd (get s1 n) (\<lambda>(na, nc).
       bnd (balanceFactor_h s1 (cright nc)) (\<lambda>br.
       bnd (if br > 0 then
              bnd (rotateRight_h s1 (cright nc)) (\<lambda>(r', s2). set_right s2 n r')
            else ret s1) (\<lambda>s3.
       bnd (rotateLeft_h s3 n) (\<lambda>(newRoot, s4).
       bnd (set_parent s4 newRoot None) (\<lambda>s5.
       ret (newRoot, s5))))))
     else ret (n, s1)))"

text \<open>
  Modelled from the spec: the constructor \<open>Node(key, value, parent)\<close>, whose definition is
  missing from the source; see \<open>newNode\<close>.  It stores the parent it is given.
\<close>

definition newCell :: "'k \<Rightarrow> 'v \<Rightarrow> ptr \<Rightarrow> ('k, 'v) cell" where
  "newCell k v par =
     \<lparr>ckey = k, cval = v, cleft = None, cright = None, cparent = par, cheight = initHeight\<rparr>"

text \<open>
  The private \<open>insert\<close>, with the member \<open>nodeCount\<close> passed in and returned.
\<close>

partial_function (option) insert_h ::
  "('k::linorder, 'v) store \<Rightarrow> ptr \<Rightarrow> 'k \<Rightarrow> 'v \<Rightarrow> ptr \<Rightarrow> nat
     \<Rightarrow> (error + ptr \<times> nat \<times> ('k, 'v) store) option" where
  "insert_h s node key val par cnt =
     (case node of
        None \<Rightarrow> (let (a, s1) = alloc s (newCell key val par) in ret (Some a, cnt + 1, s1))
      | Some na \<Rightarrow>
          bnd (get s node) (\<lambda>(na, nc).
          bnd (if key < ckey nc then
                 bnd (insert_h s (cleft nc) key val node cnt) (\<lambda>(l', cnt', s1).
                 bnd (set_left s1 node l') (\<lambda>s2. ret (cnt', s2)))
               else if ckey nc < key then
                 bnd (insert_h s (cright nc) key val node cnt) (\<lambda>(r', cnt', s1).
                 bnd (set_right s1 node r') (\<lambda>s2. ret (cnt', s2)))
               else
                 bnd (set_data s node (ckey nc) val) (\<lambda>s1. ret (cnt, s1))) (\<lambda>(cnt', s3).
          bnd (balance_h s3 node) (\<lambda>(n', s4). ret (n', cnt', s4)))))"

partial_function (option) minValueNode_h ::
  "('k, 'v) store \<Rightarrow> ptr \<Rightarrow> (error + ptr) option" where
  "minValueNode_h s node =
     bnd (get s node) (\<lambda>(a, c).
     if cleft c \<noteq> None then minValueNode_h s (cleft c) else ret node)"

partial_function (option) erase_h ::
  "('k::linorder, 'v) store \<Rightarrow> ptr \<Rightarrow> 'k \<Rightarrow> (error + ptr \<times> ('k, 'v) store) option" where
  "erase_h s node key =
     (case node of
        None \<Rightarrow> ret (None, s)
      | Some na \<Rightarrow>
          bnd (get s node) (\<lambda>(na, nc).
          if key < ckey nc then
            bnd (erase_h s (cleft nc) key) (\<lambda>(l', s1).
            bnd (set_left s1 node l') (\<lambda>s2. balance_h s2 node))
          else if ckey nc < key then
            bnd (erase_h s (cright nc) key) (\<lambda>(r', s1).
            bnd (set_right s1 node r') (\<lambda>s2. balance_h s2 node))
          else if cleft nc = None then ret (cright nc, free s na)
          else if cright nc = None then ret (cleft nc, free s na)
          else
            bnd (minValueNode_h s (cright nc)) (\<lambda>m.
            bnd (get s m) (\<lambda>(ma, mc).
            bnd (set_data s node (ckey mc) (cval mc)) (\<lambda>s1.
            bnd (get s1 node) (\<lambda>(na1, nc1).
            bnd (erase_h s1 (cright nc1) (ckey mc)) (\<lambda>(r', s2).
            bnd (set_right s2 node r') (\<lambda>s3. balance_h s3 node))))))))"

partial_function (option) clone_h ::
  "('k, 'v) store \<Rightarrow> ptr \<Rightarrow> (error + ptr \<times> ('k, 'v) store) option" where
  "clone_h s node =
     (case node of
        None \<Rightarrow> ret (None, s)
      | Some a \<Rightarrow>
          bnd (get s node) (\<lambda>(a, c).
          let (na, s1) = alloc s (newCell (ckey c) (cval c) None) in
          bnd (get s1 node) (\<lambda>(a1, c1).
          bnd (clone_h s1 (cleft c1)) (\<lambda>(l', s2).
          bnd (set_left s2 (Some na) l') (\<lambda>s3.
          bnd (get s3 node) (\<lambda>(a3, c3).
          bnd (clone_h s3 (cright c3)) (\<lambda>(r', s4).
          bnd (set_right s4 (Some na) r') (\<lambda>s5.
          ret (Some na, s5)))))))))"

declare insert_h.simps [code] minValueNode_h.simps [code] erase_h.simps [code]
  clone_h.simps [code]

text \<open>The container object: the root pointer and the count.\<close>

record hbst =
  hroot :: ptr
  hcount :: nat

definition push_h ::
  "('k::linorder, 'v) store \<Rightarrow> hbst \<Rightarrow> 'k \<Rightarrow> 'v \<Rightarrow> (error + hbst \<times> ('k, 'v) store) option" where
  "push_h s c key val =
     bnd (insert_h s (hroot c) key val None (hcount c)) (\<lambda>(n, cnt, s1).
     ret (\<lparr>hroot = n, hcount = cnt\<rparr>, s1))"

definition drop_h ::
  "('k::linorder, 'v) store \<Rightarrow> hbst \<Rightarrow> 'k \<Rightarrow> (error + hbst \<times> ('k, 'v) store) option" where
  "drop_h s c key =
     bnd (erase_h s (hroot c) key) (\<lambda>(n, s1). ret (c\<lparr>hroot := n\<rparr>, s1))"

definition copy_h :: "('k, 'v) store \<Rightarrow> hbst \<Rightarrow> (error + hbst \<times> ('k, 'v) store) option" where
  "copy_h s other =
     bnd (clone_h s (hroot other)) (\<lambda>(n, s1). ret (\<lparr>hroot = n, hcount = hcount other\<rparr>, s1))"

definition begin_h :: "('k, 'v) store \<Rightarrow> hbst \<Rightarrow> (error + ptr) option" where
  "begin_h s c = (if hroot c = None then ret None else minValueNode_h s (hroot c))"

text \<open>
  Modelled from the spec: the class \<open>Iterator\<close> is declared in the source but not defined.
  A position is a node pointer, null for \<open>end()\<close>.  \<open>advance\<close> is \<open>operator++\<close> as the spec
  gives it: with a right child, the leftmost node of the right subtree; otherwise walk up
  the parent links until a node is reached from its left child, or until there is no
  parent (the end position).
\<close>

partial_function (option) walk_up ::
  "('k, 'v) store \<Rightarrow> ptr \<Rightarrow> (error + ptr) option" where
  "walk_up s cur =
     bnd (get s cur) (\<lambda>(a, c).
     case lock s (cparent c) of
       None \<Rightarrow> ret None
     | Some pa \<Rightarrow>
         bnd (get s (Some pa)) (\<lambda>(pa', pc).
         if cleft pc = cur then ret (Some pa) else walk_up s (Some pa)))"

definition advance :: "('k, 'v) store \<Rightarrow> ptr \<Rightarrow> (error + ptr) option" where
  "advance s it =
     bnd (get s it) (\<lambda>(a, c).
     if cright c \<noteq> None then minValueNode_h s (cright c) else walk_up s it)"

partial_function (option) traverse_from ::
  "('k, 'v) store \<Rightarrow> ptr \<Rightarrow> (error + ('k \<times> 'v) list) option" where
  "traverse_from s it =
     (case it of
        None \<Rightarrow> ret []
      | Some a \<Rightarrow>
          bnd (get s it) (\<lambda>(a, c).
          bnd (advance s it) (\<lambda>nxt.
          bnd (traverse_from s nxt) (\<lambda>rest. ret ((ckey c, cval c) # rest)))))"

definition traversal :: "('k, 'v) store \<Rightarrow> hbst \<Rightarrow> (error + ('k \<times> 'v) list) option" where
  "traversal s c = bnd (begin_h s c) (\<lambda>it. traverse_from s it)"

declare walk_up.simps [code] traverse_from.simps [code]

text \<open>
  \<open>equalRange\<close>.  Its first loop, \<open>while (node->left) node = node->left\<close> from the root, is
  the loop of \<open>minValueNode\<close>; it dereferences the root without a test.  The two
  loops that follow compare the position with the end position before they read its key.
\<close>

partial_function (option) lower_loop ::
  "('k::linorder, 'v) store \<Rightarrow> ptr \<Rightarrow> 'k \<Rightarrow> (error + ptr) option" where
  "lower_loop s lower key =
     (if lower \<noteq> None then
        bnd (get s lower) (\<lambda>(a, c).
        if ckey c < key then bnd (advance s lower) (\<lambda>nxt. lower_loop s nxt key)
        else ret lower)
      else ret lower)"

partial_function (option) upper_loop ::
  "('k::linorder, 'v) store \<Rightarrow> ptr \<Rightarrow> 'k \<Rightarrow> (error + ptr) option" where
  "upper_loop s upper key =
     (if upper \<noteq> None then
        bnd (get s upper) (\<lambda>(a, c).
        if \<not> key < ckey c then bnd (advance s upper) (\<lambda>nxt. upper_loop s nxt key)
        else ret upper)
      else ret upper)"

declare lower_loop.simps [code] upper_loop.simps [code]

definition equalRange_h ::
  "('k::linorder, 'v) store \<Rightarrow> hbst \<Rightarrow> 'k \<Rightarrow> (error + ptr \<times> ptr) option" where
  "equalRange_h s c key =
     bnd (minValueNode_h s (hroot c)) (\<lambda>node.
     bnd (lower_loop s node key) (\<lambda>lower.
     bnd (upper_loop s lower key) (\<lambda>upper.
     ret (lower, upper))))"

text \<open>The store before anything is allocated, the empty container, and a run of pushes.\<close>

definition emptyStore :: "('k, 'v) store" where
  "emptyStore = \<lparr>cells = (\<lambda>a. None), fresh = 0\<rparr>"

definition hBST_empty :: hbst where
  "hBST_empty = \<lparr>hroot = None, hcount = 0\<rparr>"

fun push_all ::
  "('k::linorder, 'v) store \<Rightarrow> hbst \<Rightarrow> ('k \<times> 'v) list \<Rightarrow> (error + hbst \<times> ('k, 'v) store) option" where
  "push_all s c [] = ret (c, s)"
| "push_all s c ((k, v) # kvs) = bnd (push_h s c k v) (\<lambda>(c', s'). push_all s' c' kvs)"

subsection \<open>Stores that hold a tree\<close>

text \<open>
  No cell lies at or beyond the next fresh address.
\<close>

definition wfs :: "('k, 'v) store \<Rightarrow> bool" where
  "wfs s = (\<forall>a. fresh s \<le> a \<longrightarrow> cells s a = None)"

text \<open>
  \<open>rep s p A t\<close>: from the pointer \<open>p\<close> the store holds, on exactly the addresses \<open>A\<close> and with
  no address met twice, the nodes of the tree value \<open>t\<close>, with its keys, values, stored
  heights and children.  The parent links are not constrained.
\<close>

fun rep :: "('k, 'v) store \<Rightarrow> ptr \<Rightarrow> nat set \<Rightarrow> ('k, 'v) node \<Rightarrow> bool" where
  "rep s p A Null = (p = None \<and> A = {})"
| "rep s p A (Node l k v h r) =
     (\<exists>a c Al Ar. p = Some a \<and> cells s a = Some c
        \<and> ckey c = k \<and> cval c = v \<and> cheight c = h
        \<and> rep s (cleft c) Al l \<and> rep s (cright c) Ar r
        \<and> a \<notin> Al \<and> a \<notin> Ar \<and> Al \<inter> Ar = {} \<and> A = insert a (Al \<union> Ar))"

text \<open>What \<open>rep\<close> reads of a node: everything but the parent link.\<close>

definition core :: "('k, 'v) cell \<Rightarrow> 'k \<times> 'v \<times> ptr \<times> ptr \<times> int" where
  "core c = (ckey c, cval c, cleft c, cright c, cheight c)"

text \<open>
  Pointers and stores below an address \<open>n\<close>: a pointer is null or less than \<open>n\<close>; every
  pointer held by a node at an address less than \<open>n\<close> is; two stores hold the same nodes at
  the addresses less than \<open>n\<close>.
\<close>

definition below :: "nat \<Rightarrow> ptr \<Rightarrow> bool" where
  "below n p = (case p of None \<Rightarrow> True | Some a \<Rightarrow> a < n)"

definition ptrs_below :: "nat \<Rightarrow> ('k, 'v) store \<Rightarrow> bool" where
  "ptrs_below n s =
     (\<forall>a c. a < n \<longrightarrow> cells s a = Some c \<longrightarrow>
        below n (cleft c) \<and> below n (cright c) \<and> below n (cparent c))"

definition agree :: "nat \<Rightarrow> ('k, 'v) store \<Rightarrow> ('k, 'v) store \<Rightarrow> bool" where
  "agree n s s' = (\<forall>a. a < n \<longrightarrow> cells s' a = cells s a)"

section \<open>Properties of the tree functions\<close>

lemma keys_inorder: "keys t = fst ` set (inorder t)"
  by (induction t) auto

lemma ordered_sorted: "ordered t = sorted_wrt (<) (map fst (inorder t))"
proof (induction t)
  case Null
  then show ?case by simp
next
  case (Node l k v h r)
  have "(\<forall>x \<in> keys l. x < k) \<and> (\<forall>x \<in> keys r. k < x) \<longleftrightarrow>
        (\<forall>x \<in> keys l. \<forall>y \<in> insert k (keys r). x < y) \<and> (\<forall>x \<in> keys r. k < x)"
    by (auto intro: less_trans)
  with Node show ?case
    by (simp add: sorted_wrt_append keys_inorder) blast
qed

lemma nodes_inorder: "nodes t = length (inorder t)"
  by (induction t) auto

lemma height_nonneg: "hpos t \<Longrightarrow> 0 \<le> height t"
  by (cases t) auto

lemma hpos_height_Null: "hpos t \<Longrightarrow> 0 < height t \<Longrightarrow> t \<noteq> Null"
  by (cases t) auto

lemma rotateRight_ok:
  assumes "hpos l" "hpos r" "l \<noteq> Null"
  shows "\<exists>n. rotateRight (Node l k v h r) = Inr n \<and> n \<noteq> Null \<and> hpos n
            \<and> inorder n = inorder l @ (k, v) # inorder r"
proof (cases l)
  case Null
  with assms show ?thesis by simp
next
  case (Node a xk xv xh b)
  with assms have "0 \<le> height a" "0 \<le> height b" "0 \<le> height r"
    by (auto intro: height_nonneg)
  with Node assms show ?thesis by auto
qed

lemma rotateLeft_ok:
  assumes "hpos l" "hpos r" "r \<noteq> Null"
  shows "\<exists>n. rotateLeft (Node l k v h r) = Inr n \<and> n \<noteq> Null \<and> hpos n
            \<and> inorder n = inorder l @ (k, v) # inorder r"
proof (cases r)
  case Null
  with assms show ?thesis by simp
next
  case (Node b yk yv yh c)
  with assms have "0 \<le> height l" "0 \<le> height b" "0 \<le> height c"
    by (auto intro: height_nonneg)
  with Node assms show ?thesis by auto
qed

lemma balance_ok:
  assumes "hpos l" "hpos r"
  shows "\<exists>n. balance (Node l k v h r) = Inr n \<and> n \<noteq> Null \<and> hpos n
            \<and> inorder n = inorder l @ (k, v) # inorder r"
proof -
  let ?h = "1 + max (height l) (height r)"
  have hl: "0 \<le> height l" and hr: "0 \<le> height r"
    using assms by (auto intro: height_nonneg)
  consider (L) "height l - height r > 1" | (R) "height l - height r < - 1"
    | (M) "\<not> height l - height r > 1" "\<not> height l - height r < - 1" by linarith
  then show ?thesis
  proof cases
    case L
    then have lnn: "l \<noteq> Null" using hr by (cases l) auto
    then obtain a xk xv xh b where l: "l = Node a xk xv xh b" by (cases l) auto
    show ?thesis
    proof (cases "height a - height b < 0")
      case True
      have "hpos a" "hpos b" using assms l by auto
      then have "0 \<le> height a" by (auto intro: height_nonneg)
      with True have "b \<noteq> Null" by (cases b) auto
      from rotateLeft_ok[OF \<open>hpos a\<close> \<open>hpos b\<close> this, of xk xv xh]
      obtain l' where l': "rotateLeft l = Inr l'" "l' \<noteq> Null" "hpos l'"
        "inorder l' = inorder l" using l by auto
      from rotateRight_ok[OF l'(3) assms(2) l'(2), of k v ?h]
      show ?thesis using L True l l' by (auto simp: balance_def)
    next
      case False
      from rotateRight_ok[OF assms(1) assms(2) lnn, of k v ?h]
      show ?thesis using L False l by (auto simp: balance_def)
    qed
  next
    case R
    then have rnn: "r \<noteq> Null" using hl by (cases r) auto
    then obtain b yk yv yh c where r: "r = Node b yk yv yh c" by (cases r) auto
    show ?thesis
    proof (cases "height b - height c > 0")
      case True
      have "hpos b" "hpos c" using assms r by auto
      then have "0 \<le> height c" by (auto intro: height_nonneg)
      with True have "b \<noteq> Null" by (cases b) auto
      from rotateRight_ok[OF \<open>hpos b\<close> \<open>hpos c\<close> this, of yk yv yh]
      obtain r' where r': "rotateRight r = Inr r'" "r' \<noteq> Null" "hpos r'"
        "inorder r' = inorder r" using r by auto
      from rotateLeft_ok[OF assms(1) r'(3) r'(2), of k v ?h]
      show ?thesis using R True r r' by (auto simp: balance_def)
    next
      case False
      from rotateLeft_ok[OF assms(1) assms(2) rnn, of k v ?h]
      show ?thesis using R False r by (auto simp: balance_def)
    qed
  next
    case M
    then show ?thesis using assms hl hr by (auto simp: balance_def)
  qed
qed

lemma insert_node_ok:
  assumes "hpos t" "ordered t"
  shows "\<exists>n. insert_node t key val cnt =
               Inr (n, if key \<in> keys t then cnt else cnt + 1)
            \<and> n \<noteq> Null \<and> hpos n \<and> ordered n
            \<and> set (inorder n) = {p \<in> set (inorder t). fst p \<noteq> key} \<union> {(key, val)}
            \<and> nodes n = (if key \<in> keys t then nodes t else nodes t + 1)"
  using assms
proof (induction t)
  case Null
  then show ?case by (simp add: newNode_def initHeight_def)
next
  case (Node l k v h r)
  then have hp: "hpos l" "hpos r" and ord: "ordered l" "ordered r"
    and lk: "\<forall>x \<in> keys l. x < k" and rk: "\<forall>x \<in> keys r. k < x" by auto
  consider (lt) "key < k" | (gt) "k < key" | (eq) "key = k" using less_linear[of key k] by blast
  then show ?case
  proof cases
    case lt
    from Node.IH(1)[OF hp(1) ord(1)] obtain l' where
      l': "insert_node l key val cnt = Inr (l', if key \<in> keys l then cnt else cnt + 1)"
      "hpos l'" "ordered l'"
      "set (inorder l') = {p \<in> set (inorder l). fst p \<noteq> key} \<union> {(key, val)}"
      "nodes l' = (if key \<in> keys l then nodes l else nodes l + 1)" by blast
    from balance_ok[OF l'(2) hp(2), of k v h] obtain n where
      n: "balance (Node l' k v h r) = Inr n" "n \<noteq> Null" "hpos n"
      "inorder n = inorder l' @ (k, v) # inorder r" by blast
    have kl': "keys l' = keys l \<union> {key}" using l'(4) by (force simp: keys_inorder)
    have "ordered (Node l' k v h r)" using l'(3) ord(2) lk rk lt kl' by auto
    then have on: "ordered n" using n(4) by (simp add: ordered_sorted)
    have nr: "key \<notin> keys r" "key \<noteq> k" using rk lt by auto
    have "{p \<in> set (inorder r). fst p \<noteq> key} = set (inorder r)"
      using nr by (auto simp: keys_inorder)
    then have st: "set (inorder n) =
        {p \<in> set (inorder (Node l k v h r)). fst p \<noteq> key} \<union> {(key, val)}"
      using n(4) l'(4) nr by auto
    have res: "insert_node (Node l k v h r) key val cnt =
        Inr (n, if key \<in> keys l then cnt else cnt + 1)"
      using lt l'(1) n(1) by simp
    have kin: "key \<in> keys (Node l k v h r) \<longleftrightarrow> key \<in> keys l" using nr by simp
    have nd: "nodes n = (if key \<in> keys l then nodes (Node l k v h r)
        else nodes (Node l k v h r) + 1)"
      using l'(5) n(4) by (simp add: nodes_inorder)
    show ?thesis
      by (intro exI[of _ n] conjI) (simp_all only: res kin nd n(2) n(3) on st simp_thms)
  next
    case gt
    from Node.IH(2)[OF hp(2) ord(2)] obtain r' where
      r': "insert_node r key val cnt = Inr (r', if key \<in> keys r then cnt else cnt + 1)"
      "hpos r'" "ordered r'"
      "set (inorder r') = {p \<in> set (inorder r). fst p \<noteq> key} \<union> {(key, val)}"
      "nodes r' = (if key \<in> keys r then nodes r else nodes r + 1)" by blast
    from balance_ok[OF hp(1) r'(2), of k v h] obtain n where
      n: "balance (Node l k v h r') = Inr n" "n \<noteq> Null" "hpos n"
      "inorder n = inorder l @ (k, v) # inorder r'" by blast
    have kr': "keys r' = keys r \<union> {key}" using r'(4) by (force simp: keys_inorder)
    have "ordered (Node l k v h r')" using r'(3) ord(1) lk rk gt kr' by auto
    then have on: "ordered n" using n(4) by (simp add: ordered_sorted)
    have nl: "key \<notin> keys l" "key \<noteq> k" using lk gt by auto
    have "{p \<in> set (inorder l). fst p \<noteq> key} = set (inorder l)"
      using nl by (auto simp: keys_inorder)
    then have st: "set (inorder n) =
        {p \<in> set (inorder (Node l k v h r)). fst p \<noteq> key} \<union> {(key, val)}"
      using n(4) r'(4) nl by auto
    have res: "insert_node (Node l k v h r) key val cnt =
        Inr (n, if key \<in> keys r then cnt else cnt + 1)"
      using gt r'(1) n(1) less_asym[OF gt] by auto
    have kin: "key \<in> keys (Node l k v h r) \<longleftrightarrow> key \<in> keys r" using nl by simp
    have nd: "nodes n = (if key \<in> keys r then nodes (Node l k v h r)
        else nodes (Node l k v h r) + 1)"
      using r'(5) n(4) by (simp add: nodes_inorder)
    show ?thesis
      by (intro exI[of _ n] conjI) (simp_all only: res kin nd n(2) n(3) on st simp_thms)
  next
    case eq
    from balance_ok[OF hp, of k val h] obtain n where
      n: "balance (Node l k val h r) = Inr n" "n \<noteq> Null" "hpos n"
      "inorder n = inorder l @ (k, val) # inorder r" by blast
    have "ordered (Node l k val h r)" using ord lk rk by auto
    then have on: "ordered n" using n(4) by (simp add: ordered_sorted)
    have nl: "key \<notin> keys l" "key \<notin> keys r" using lk rk eq by auto
    have "{p \<in> set (inorder l). fst p \<noteq> key} = set (inorder l)"
         "{p \<in> set (inorder r). fst p \<noteq> key} = set (inorder r)"
      using nl by (auto simp: keys_inorder)
    then have st: "set (inorder n) =
        {p \<in> set (inorder (Node l k v h r)). fst p \<noteq> key} \<union> {(key, val)}"
      using n(4) eq by auto
    have res: "insert_node (Node l k v h r) key val cnt = Inr (n, cnt)"
      using eq n(1) by simp
    have kin: "key \<in> keys (Node l k v h r)" using eq by simp
    have nd: "nodes n = nodes (Node l k v h r)"
      using n(4) by (simp add: nodes_inorder)
    show ?thesis
      by (intro exI[of _ n] conjI) (simp_all only: res kin nd n(2) n(3) on st if_True simp_thms)
  qed
qed

lemma minValueNode_ok:
  assumes "t \<noteq> Null"
  shows "\<exists>mk mv mh mr. minValueNode t = Inr (Node Null mk mv mh mr)
           \<and> (mk, mv) \<in> set (inorder t) \<and> (ordered t \<longrightarrow> (\<forall>x \<in> keys t. mk \<le> x))"
  using assms
proof (induction t rule: minValueNode.induct)
  case 1
  then show ?case by simp
next
  case (2 k v h r)
  then show ?case by auto
next
  case (3 a lk lv lh b k v h r)
  let ?l = "Node a lk lv lh b"
  from 3 obtain mk mv mh mr where
    m: "minValueNode ?l = Inr (Node Null mk mv mh mr)"
    "(mk, mv) \<in> set (inorder ?l)"
    "ordered ?l \<longrightarrow> (\<forall>x \<in> keys ?l. mk \<le> x)" by blast
  have mkl: "mk \<in> keys ?l" using m(2) by (force simp: keys_inorder)
  have "\<forall>x \<in> keys (Node ?l k v h r). mk \<le> x" if o: "ordered (Node ?l k v h r)"
  proof
    fix x assume x: "x \<in> keys (Node ?l k v h r)"
    from o have ol: "ordered ?l" and lk: "\<forall>y \<in> keys ?l. y < k"
      and rk: "\<forall>y \<in> keys r. k < y" by simp_all
    have mk: "mk < k" using lk mkl by blast
    from x have "x \<in> keys ?l \<or> x = k \<or> x \<in> keys r" by auto
    then show "mk \<le> x"
    proof (elim disjE)
      assume "x \<in> keys ?l" then show ?thesis using m(3) ol by blast
    next
      assume "x = k" then show ?thesis using mk by simp
    next
      assume "x \<in> keys r" then have "k < x" using rk by blast
      then show ?thesis using mk by simp
    qed
  qed
  then show ?case using m(1,2) by auto
qed

lemma ordered_unique:
  "ordered t \<Longrightarrow> (k, v) \<in> set (inorder t) \<Longrightarrow> (k, w) \<in> set (inorder t) \<Longrightarrow> v = w"
proof (induction t)
  case Null
  then show ?case by simp
next
  case (Node l a b h r)
  have "k \<in> keys l \<Longrightarrow> k < a" "k \<in> keys r \<Longrightarrow> a < k" using Node.prems(1) by auto
  moreover have "(k, v) \<in> set (inorder l) \<Longrightarrow> k \<in> keys l"
    "(k, w) \<in> set (inorder l) \<Longrightarrow> k \<in> keys l"
    "(k, v) \<in> set (inorder r) \<Longrightarrow> k \<in> keys r"
    "(k, w) \<in> set (inorder r) \<Longrightarrow> k \<in> keys r" by (force simp: keys_inorder)+
  ultimately show ?case using Node by (auto dest: less_asym)
qed

lemma keys_filter:
  "set (inorder n) = {p \<in> set (inorder t). fst p \<noteq> key} \<Longrightarrow> keys n = keys t - {key}"
  by (force simp: keys_inorder)

lemma filter_absent:
  "key \<notin> keys t \<Longrightarrow> {p \<in> set (inorder t). fst p \<noteq> key} = set (inorder t)"
  by (auto simp: keys_inorder)

lemma erase_node_ok:
  assumes "hpos t" "ordered t"
  shows "\<exists>n. erase_node t key = Inr n \<and> hpos n \<and> ordered n
            \<and> set (inorder n) = {p \<in> set (inorder t). fst p \<noteq> key}"
  using assms
proof (induction t arbitrary: key)
  case Null
  then show ?case by simp
next
  case (Node l k v h r)
  then have hp: "hpos l" "hpos r" and ord: "ordered l" "ordered r"
    and lk: "\<forall>x \<in> keys l. x < k" and rk: "\<forall>x \<in> keys r. k < x" by auto
  consider (lt) "key < k" | (gt) "k < key" | (eq) "key = k"
    using less_linear[of key k] by blast
  then show ?case
  proof cases
    case lt
    from Node.IH(1)[OF hp(1) ord(1), of key] obtain l' where
      l': "erase_node l key = Inr l'" "hpos l'" "ordered l'"
      "set (inorder l') = {p \<in> set (inorder l). fst p \<noteq> key}" by blast
    from balance_ok[OF l'(2) hp(2), of k v h] obtain n where
      n: "balance (Node l' k v h r) = Inr n" "hpos n"
      "inorder n = inorder l' @ (k, v) # inorder r" by blast
    have "keys l' = keys l - {key}" using l'(4) by (rule keys_filter)
    then have "ordered (Node l' k v h r)" using l'(3) ord(2) lk rk by auto
    then have on: "ordered n" using n(3) by (simp add: ordered_sorted)
    have nr: "key \<notin> keys r" "key \<noteq> k" using rk lt by auto
    have st: "set (inorder n) = {p \<in> set (inorder (Node l k v h r)). fst p \<noteq> key}"
      using n(3) l'(4) nr filter_absent[OF nr(1)] by auto
    have res: "erase_node (Node l k v h r) key = Inr n" using lt l'(1) n(1) by simp
    show ?thesis by (intro exI[of _ n] conjI) (simp_all only: res n(2) on st)
  next
    case gt
    from Node.IH(2)[OF hp(2) ord(2), of key] obtain r' where
      r': "erase_node r key = Inr r'" "hpos r'" "ordered r'"
      "set (inorder r') = {p \<in> set (inorder r). fst p \<noteq> key}" by blast
    from balance_ok[OF hp(1) r'(2), of k v h] obtain n where
      n: "balance (Node l k v h r') = Inr n" "hpos n"
      "inorder n = inorder l @ (k, v) # inorder r'" by blast
    have "keys r' = keys r - {key}" using r'(4) by (rule keys_filter)
    then have "ordered (Node l k v h r')" using r'(3) ord(1) lk rk by auto
    then have on: "ordered n" using n(3) by (simp add: ordered_sorted)
    have nl: "key \<notin> keys l" "key \<noteq> k" using lk gt by auto
    have st: "set (inorder n) = {p \<in> set (inorder (Node l k v h r)). fst p \<noteq> key}"
      using n(3) r'(4) nl filter_absent[OF nl(1)] by auto
    have res: "erase_node (Node l k v h r) key = Inr n"
      using gt r'(1) n(1) less_asym[OF gt] by auto
    show ?thesis by (intro exI[of _ n] conjI) (simp_all only: res n(2) on st)
  next
    case eq
    have nl: "key \<notin> keys l" and nr: "key \<notin> keys r" using lk rk eq by auto
    have all: "{p \<in> set (inorder (Node l k v h r)). fst p \<noteq> key}
        = set (inorder l) \<union> set (inorder r)"
      using filter_absent[OF nl] filter_absent[OF nr] eq by auto
    show ?thesis
    proof (cases "l = Null")
      case True
      then have "erase_node (Node l k v h r) key = Inr r" using eq by simp
      moreover have "set (inorder r) = {p \<in> set (inorder (Node l k v h r)). fst p \<noteq> key}"
        using all True by simp
      ultimately show ?thesis using hp(2) ord(2) by blast
    next
      case lnn: False
      show ?thesis
      proof (cases "r = Null")
        case True
        then have "erase_node (Node l k v h r) key = Inr l" using eq lnn by simp
        moreover have "set (inorder l) = {p \<in> set (inorder (Node l k v h r)). fst p \<noteq> key}"
          using all True by simp
        ultimately show ?thesis using hp(1) ord(1) by blast
      next
        case rnn: False
        from minValueNode_ok[OF rnn] obtain mk mv mh mr where
          m: "minValueNode r = Inr (Node Null mk mv mh mr)"
          "(mk, mv) \<in> set (inorder r)" "\<forall>x \<in> keys r. mk \<le> x" using ord(2) by blast
        have mkr: "mk \<in> keys r" using m(2) by (force simp: keys_inorder)
        from Node.IH(2)[OF hp(2) ord(2), of mk] obtain r' where
          r': "erase_node r mk = Inr r'" "hpos r'" "ordered r'"
          "set (inorder r') = {p \<in> set (inorder r). fst p \<noteq> mk}" by blast
        from balance_ok[OF hp(1) r'(2), of mk mv h] obtain n where
          n: "balance (Node l mk mv h r') = Inr n" "hpos n"
          "inorder n = inorder l @ (mk, mv) # inorder r'" by blast
        have kr': "keys r' = keys r - {mk}" using r'(4) by (rule keys_filter)
        have "k < mk" using rk mkr by blast
        then have "\<forall>x \<in> keys l. x < mk" using lk by (auto intro: less_trans)
        moreover have "\<forall>x \<in> keys r'. mk < x" using kr' m(3) by (auto simp: less_le)
        ultimately have "ordered (Node l mk mv h r')" using ord(1) r'(3) by simp
        then have on: "ordered n" using n(3) by (simp add: ordered_sorted)
        have "set (inorder r) = {(mk, mv)} \<union> {p \<in> set (inorder r). fst p \<noteq> mk}"
        proof (intro set_eqI iffI)
          fix p assume p: "p \<in> set (inorder r)"
          show "p \<in> {(mk, mv)} \<union> {p \<in> set (inorder r). fst p \<noteq> mk}"
          proof (cases "fst p = mk")
            case True
            then have "(mk, snd p) \<in> set (inorder r)" using p by (metis prod.collapse)
            from ordered_unique[OF ord(2) this m(2)] True have "p = (mk, mv)"
              by (metis prod.collapse)
            then show ?thesis by simp
          next
            case False
            then show ?thesis using p by simp
          qed
        next
          fix p assume "p \<in> {(mk, mv)} \<union> {p \<in> set (inorder r). fst p \<noteq> mk}"
          then show "p \<in> set (inorder r)" using m(2) by auto
        qed
        then have "set (inorder n) = set (inorder l) \<union> set (inorder r)"
          using n(3) r'(4) by auto
        then have st: "set (inorder n) = {p \<in> set (inorder (Node l k v h r)). fst p \<noteq> key}"
          using all by simp
        have res: "erase_node (Node l k v h r) key = Inr n"
          using eq lnn rnn m(1) r'(1) n(1) by simp
        show ?thesis by (intro exI[of _ n] conjI) (simp_all only: res n(2) on st)
      qed
    qed
  qed
qed

lemma find_node_ordered:
  assumes "ordered t"
  shows "(key \<notin> keys t \<longrightarrow> find_node t key = Null)
       \<and> ((key, val) \<in> set (inorder t) \<longrightarrow> (\<exists>l h r. find_node t key = Node l key val h r))"
  using assms
proof (induction t)
  case Null
  then show ?case by simp
next
  case (Node l k v h r)
  then have lk: "\<forall>x \<in> keys l. x < k" and rk: "\<forall>x \<in> keys r. k < x" by auto
  have inl: "key \<in> keys l" if "(key, val) \<in> set (inorder l)" using that
    by (force simp: keys_inorder)
  have inr: "key \<in> keys r" if "(key, val) \<in> set (inorder r)" using that
    by (force simp: keys_inorder)
  consider (lt) "key < k" | (gt) "k < key" | (eq) "key = k"
    using less_linear[of key k] by blast
  then show ?case
  proof cases
    case lt
    then have "(key, val) \<notin> set (inorder r)" using inr rk by (auto dest: less_asym)
    then show ?thesis using lt Node by auto
  next
    case gt
    then have "(key, val) \<notin> set (inorder l)" "\<not> key < k" using inl lk by (auto dest: less_asym)
    then show ?thesis using gt Node by auto
  next
    case eq
    then have "(key, val) \<notin> set (inorder l)" "(key, val) \<notin> set (inorder r)"
      using inl inr lk rk by auto
    then show ?thesis using eq by auto
  qed
qed

lemma find_loop_eq: "find_loop t key = find_node t key"
  by (induction t) auto

lemma find_node_absent: "key \<notin> keys t \<Longrightarrow> find_node t key = Null"
  by (induction t) auto

lemma inorder_clone: "inorder (clone t) = inorder t"
  by (induction t) auto

lemma hpos_clone: "hpos (clone t)"
  by (induction t) (auto simp: initHeight_def)

lemma ordered_clone: "ordered t \<Longrightarrow> ordered (clone t)"
  by (simp add: ordered_sorted inorder_clone)

lemma push_ok:
  assumes "hpos (root c)" "ordered (root c)"
  shows "\<exists>c'. push c key val = Inr c' \<and> hpos (root c') \<and> ordered (root c')
           \<and> set (inorder (root c')) =
               {p \<in> set (inorder (root c)). fst p \<noteq> key} \<union> {(key, val)}
           \<and> nodeCount c' = (if key \<in> keys (root c) then nodeCount c else nodeCount c + 1)"
proof -
  from insert_node_ok[OF assms, of key val "nodeCount c"] obtain n where
    n: "insert_node (root c) key val (nodeCount c) =
          Inr (n, if key \<in> keys (root c) then nodeCount c else nodeCount c + 1)"
    "hpos n" "ordered n"
    "set (inorder n) = {p \<in> set (inorder (root c)). fst p \<noteq> key} \<union> {(key, val)}"
    by blast
  show ?thesis
    by (rule exI[of _ "\<lparr>root = n,
          nodeCount = (if key \<in> keys (root c) then nodeCount c else nodeCount c + 1)\<rparr>"])
       (simp add: push_def n)
qed

lemma drop_key_ok:
  assumes "hpos (root c)" "ordered (root c)"
  shows "\<exists>c'. drop_key c key = Inr c' \<and> hpos (root c') \<and> ordered (root c')
           \<and> set (inorder (root c')) = {p \<in> set (inorder (root c)). fst p \<noteq> key}
           \<and> nodeCount c' = nodeCount c"
proof -
  from erase_node_ok[OF assms, of key] obtain n where
    n: "erase_node (root c) key = Inr n" "hpos n" "ordered n"
    "set (inorder n) = {p \<in> set (inorder (root c)). fst p \<noteq> key}" by blast
  show ?thesis
    by (rule exI[of _ "c\<lparr>root := n\<rparr>"]) (simp add: drop_key_def n)
qed

lemma ordered_distinct: "ordered t \<Longrightarrow> distinct (map fst (inorder t))"
  by (simp add: ordered_sorted strict_sorted_iff)

lemma push_inv:
  assumes "hpos (root c) \<and> ordered (root c)" "push c key val = Inr c'"
  shows "hpos (root c') \<and> ordered (root c')"
proof -
  from push_ok[of c key val] assms(1) obtain d where
    d: "push c key val = Inr d" "hpos (root d)" "ordered (root d)" by blast
  with assms(2) show ?thesis by simp
qed

lemma drop_key_inv:
  assumes "hpos (root c) \<and> ordered (root c)" "drop_key c key = Inr c'"
  shows "hpos (root c') \<and> ordered (root c')"
proof -
  from drop_key_ok[of c key] assms(1) obtain d where
    d: "drop_key c key = Inr d" "hpos (root d)" "ordered (root d)" by blast
  with assms(2) show ?thesis by simp
qed

lemma reachable_inv: "reachable c \<Longrightarrow> hpos (root c) \<and> ordered (root c)"
proof (induction rule: reachable.induct)
  case r_empty
  show ?case by (simp add: BST_empty_def)
next
  case (r_copy c)
  then show ?case by (simp add: BST_copy_def hpos_clone ordered_clone)
next
  case (r_assign c this)
  then show ?case by (simp add: BST_assign_copy_def hpos_clone ordered_clone)
next
  case (r_move_to c this)
  then show ?case by (simp add: BST_assign_move_def)
next
  case (r_move_from c this)
  then show ?case by (simp add: BST_assign_move_def)
next
  case (r_push c key val c')
  then show ?case using push_inv[of c key val c'] by blast
next
  case (r_insert c p c')
  then show ?case using push_inv[of c "fst p" "snd p" c'] by (simp add: insert_pair_def)
next
  case (r_drop c key c')
  then show ?case using drop_key_inv[of c key c'] by blast
next
  case (r_erase c key c')
  then show ?case using drop_key_inv[of c key c'] by (simp add: erase_key_def)
next
  case (r_clear c)
  show ?case by (simp add: clear_def)
qed

subsection \<open>The height invariant under \<open>insert\<close> and \<open>erase\<close>\<close>

lemma avl_hpos: "avl t \<Longrightarrow> hpos t \<and> 0 \<le> height t"
  by (induction t) auto

lemma avl_height_Null: "avl t \<Longrightarrow> height t = 0 \<Longrightarrow> t = Null"
  using avl_hpos[of t] by (cases t) auto

lemma balance_avl_mid:
  assumes "avl l" "avl r" "\<bar>height l - height r\<bar> \<le> 1"
  shows "balance (Node l k v h r) = Inr (Node l k v (1 + max (height l) (height r)) r)"
  using assms by (auto simp: balance_def Let_def)

lemma balance_avl_left:
  assumes "avl l" "avl r" "height l = height r + 2"
  shows "\<exists>n. balance (Node l k v h r) = Inr n \<and> avl n
           \<and> (height n = height r + 2 \<or> height n = height r + 3)"
proof -
  have hr: "0 \<le> height r" using avl_hpos[OF assms(2)] by simp
  from assms(3) hr obtain a xk xv xh b where l: "l = Node a xk xv xh b"
    by (cases l) auto
  have al: "avl a" "avl b" "\<bar>height a - height b\<bar> \<le> 1" "xh = 1 + max (height a) (height b)"
    using assms(1) l by auto
  have ha: "0 \<le> height a" "0 \<le> height b" using avl_hpos[OF al(1)] avl_hpos[OF al(2)] by auto
  show ?thesis
  proof (cases "height a - height b < 0")
    case False
    then show ?thesis using assms l al ha hr by (auto simp: balance_def)
  next
    case True
    then have "0 < height b" using ha by simp
    then obtain b1 yk yv yh b2 where b: "b = Node b1 yk yv yh b2" by (cases b) auto
    have ab: "avl b1" "avl b2" "\<bar>height b1 - height b2\<bar> \<le> 1"
      "yh = 1 + max (height b1) (height b2)" using al(2) b by auto
    show ?thesis using True assms l al ha hr b ab by (auto simp: balance_def)
  qed
qed

lemma balance_avl_right:
  assumes "avl l" "avl r" "height r = height l + 2"
  shows "\<exists>n. balance (Node l k v h r) = Inr n \<and> avl n
           \<and> (height n = height l + 2 \<or> height n = height l + 3)"
proof -
  have hl: "0 \<le> height l" using avl_hpos[OF assms(1)] by simp
  from assms(3) hl obtain b yk yv yh c where r: "r = Node b yk yv yh c"
    by (cases r) auto
  have ar: "avl b" "avl c" "\<bar>height b - height c\<bar> \<le> 1" "yh = 1 + max (height b) (height c)"
    using assms(2) r by auto
  have hb: "0 \<le> height b" "0 \<le> height c" using avl_hpos[OF ar(1)] avl_hpos[OF ar(2)] by auto
  show ?thesis
  proof (cases "height b - height c > 0")
    case False
    then show ?thesis using assms r ar hb hl by (auto simp: balance_def)
  next
    case True
    then have "0 < height b" using hb by simp
    then obtain b1 xk xv xh b2 where b: "b = Node b1 xk xv xh b2" by (cases b) auto
    have ab: "avl b1" "avl b2" "\<bar>height b1 - height b2\<bar> \<le> 1"
      "xh = 1 + max (height b1) (height b2)" using ar(1) b by auto
    show ?thesis using True assms r ar hb hl b ab by (auto simp: balance_def)
  qed
qed

lemma balance_avl:
  assumes "avl l" "avl r" "\<bar>height l - height r\<bar> \<le> 2"
  shows "\<exists>n. balance (Node l k v h r) = Inr n \<and> avl n
           \<and> (if \<bar>height l - height r\<bar> \<le> 1 then height n = 1 + max (height l) (height r)
               else height n = max (height l) (height r) \<or>
                    height n = 1 + max (height l) (height r))"
proof -
  consider (m) "\<bar>height l - height r\<bar> \<le> 1" | (l) "height l = height r + 2"
    | (r) "height r = height l + 2" using assms(3) by linarith
  then show ?thesis
  proof cases
    case m
    from balance_avl_mid[OF assms(1,2) m, of k v h] m assms(1,2) show ?thesis by auto
  next
    case l
    from balance_avl_left[OF assms(1,2) l, of k v h] l show ?thesis by auto
  next
    case r
    from balance_avl_right[OF assms(1,2) r, of k v h] r show ?thesis by auto
  qed
qed

lemma insert_node_avl:
  assumes "avl t"
  shows "\<exists>n c. insert_node t key val cnt = Inr (n, c) \<and> avl n
           \<and> (height n = height t \<or> height n = height t + 1)"
  using assms
proof (induction t)
  case Null
  then show ?case by (simp add: newNode_def initHeight_def)
next
  case (Node l k v h r)
  then have a: "avl l" "avl r" "\<bar>height l - height r\<bar> \<le> 1" "h = 1 + max (height l) (height r)"
    by auto
  consider (lt) "key < k" | (gt) "\<not> key < k" "k < key" | (eq) "\<not> key < k" "\<not> k < key"
    by blast
  then show ?case
  proof cases
    case lt
    from Node.IH(1)[OF a(1)] obtain l' c where
      l': "insert_node l key val cnt = Inr (l', c)" "avl l'"
      "height l' = height l \<or> height l' = height l + 1" by blast
    have "\<bar>height l' - height r\<bar> \<le> 2" using l'(3) a(3) by linarith
    from balance_avl[OF l'(2) a(2) this, of k v h] obtain n where
      n: "balance (Node l' k v h r) = Inr n" "avl n"
      "if \<bar>height l' - height r\<bar> \<le> 1 then height n = 1 + max (height l') (height r)
       else height n = max (height l') (height r) \<or> height n = 1 + max (height l') (height r)"
      by blast
    have "height n = h \<or> height n = h + 1"
      using n(3) l'(3) a(3,4) by (auto split: if_splits)
    then show ?thesis using lt l'(1) n(1,2) by simp
  next
    case gt
    from Node.IH(2)[OF a(2)] obtain r' c where
      r': "insert_node r key val cnt = Inr (r', c)" "avl r'"
      "height r' = height r \<or> height r' = height r + 1" by blast
    have "\<bar>height l - height r'\<bar> \<le> 2" using r'(3) a(3) by linarith
    from balance_avl[OF a(1) r'(2) this, of k v h] obtain n where
      n: "balance (Node l k v h r') = Inr n" "avl n"
      "if \<bar>height l - height r'\<bar> \<le> 1 then height n = 1 + max (height l) (height r')
       else height n = max (height l) (height r') \<or> height n = 1 + max (height l) (height r')"
      by blast
    have "height n = h \<or> height n = h + 1"
      using n(3) r'(3) a(3,4) by (auto split: if_splits)
    then show ?thesis using gt r'(1) n(1,2) by simp
  next
    case eq
    from balance_avl_mid[OF a(1,2,3), of k val h] a eq show ?thesis by simp
  qed
qed

lemma erase_node_avl:
  assumes "avl t"
  shows "\<exists>n. erase_node t key = Inr n \<and> avl n
           \<and> (height n = height t \<or> height n = height t - 1)"
  using assms
proof (induction t arbitrary: key)
  case Null
  then show ?case by simp
next
  case (Node l k v h r)
  then have a: "avl l" "avl r" "\<bar>height l - height r\<bar> \<le> 1" "h = 1 + max (height l) (height r)"
    by auto
  have right: "\<exists>n. balance (Node l k' v' h r') = Inr n \<and> avl n
           \<and> (height n = h \<or> height n = h - 1)"
    if r': "avl r'" "height r' = height r \<or> height r' = height r - 1" for r' k' v'
  proof -
    have "\<bar>height l - height r'\<bar> \<le> 2" using r'(2) a(3) by linarith
    from balance_avl[OF a(1) r'(1) this, of k' v' h] obtain n where
      n: "balance (Node l k' v' h r') = Inr n" "avl n"
      "if \<bar>height l - height r'\<bar> \<le> 1 then height n = 1 + max (height l) (height r')
       else height n = max (height l) (height r') \<or> height n = 1 + max (height l) (height r')"
      by blast
    have "height n = h \<or> height n = h - 1"
      using n(3) r'(2) a(3,4) by (auto split: if_splits)
    then show ?thesis using n(1,2) by blast
  qed
  consider (lt) "key < k" | (gt) "\<not> key < k" "k < key" | (eq) "\<not> key < k" "\<not> k < key"
    by blast
  then show ?case
  proof cases
    case lt
    from Node.IH(1)[OF a(1), of key] obtain l' where
      l': "erase_node l key = Inr l'" "avl l'"
      "height l' = height l \<or> height l' = height l - 1" by blast
    have "\<bar>height l' - height r\<bar> \<le> 2" using l'(3) a(3) by linarith
    from balance_avl[OF l'(2) a(2) this, of k v h] obtain n where
      n: "balance (Node l' k v h r) = Inr n" "avl n"
      "if \<bar>height l' - height r\<bar> \<le> 1 then height n = 1 + max (height l') (height r)
       else height n = max (height l') (height r) \<or> height n = 1 + max (height l') (height r)"
      by blast
    have "height n = h \<or> height n = h - 1"
      using n(3) l'(3) a(3,4) by (auto split: if_splits)
    then show ?thesis using lt l'(1) n(1,2) by simp
  next
    case gt
    from Node.IH(2)[OF a(2), of key] obtain r' where
      r': "erase_node r key = Inr r'" "avl r'"
      "height r' = height r \<or> height r' = height r - 1" by blast
    from right[OF r'(2,3), of k v] gt r'(1) show ?thesis by auto
  next
    case eq
    have hn: "0 \<le> height l" "0 \<le> height r" using avl_hpos[OF a(1)] avl_hpos[OF a(2)] by auto
    show ?thesis
    proof (cases "l = Null")
      case True
      then show ?thesis using eq a hn by auto
    next
      case lnn: False
      show ?thesis
      proof (cases "r = Null")
        case True
        then show ?thesis using eq a hn lnn by auto
      next
        case rnn: False
        from minValueNode_ok[OF rnn] obtain mk mv mh mr where
          m: "minValueNode r = Inr (Node Null mk mv mh mr)" by blast
        from Node.IH(2)[OF a(2), of mk] obtain r' where
          r': "erase_node r mk = Inr r'" "avl r'"
          "height r' = height r \<or> height r' = height r - 1" by blast
        from right[OF r'(2,3), of mk mv] eq lnn rnn m r'(1) show ?thesis by auto
      qed
    qed
  qed
qed

lemma push_drop_keep_avl:
  assumes "avl (root c)"
  shows "(\<exists>c'. push c key val = Inr c' \<and> avl (root c'))
       \<and> (\<exists>c'. drop_key c key = Inr c' \<and> avl (root c'))"
proof
  from insert_node_avl[OF assms, of key val "nodeCount c"] obtain n cnt where
    "insert_node (root c) key val (nodeCount c) = Inr (n, cnt)" "avl n" by blast
  then show "\<exists>c'. push c key val = Inr c' \<and> avl (root c')" by (simp add: push_def)
  from erase_node_avl[OF assms, of key] obtain n where
    "erase_node (root c) key = Inr n" "avl n" by blast
  then show "\<exists>c'. drop_key c key = Inr c' \<and> avl (root c')" by (simp add: drop_key_def)
qed

section \<open>The store functions on stores that hold a tree\<close>

text \<open>
  On a store that holds a tree, the rotations, \<open>balance\<close>, \<open>minValueNode\<close>, \<open>erase\<close> and \<open>clone\<close>
  return, compute what the functions on tree values compute, and write only to the
  addresses of that tree (\<open>clone\<close>: only to fresh addresses).
\<close>

lemma cells_put: "cells (put s a c) b = (if b = a then Some c else cells s b)"
  by (simp add: put_def)

lemma fresh_put: "fresh (put s a c) = fresh s"
  by (simp add: put_def)

lemma get_Some: "cells s a = Some c \<Longrightarrow> get s (Some a) = Some (Inr (a, c))"
  by (simp add: get_def)

lemma rep_frame:
  assumes "rep s p A t" "\<forall>a \<in> A. map_option core (cells s' a) = map_option core (cells s a)"
  shows "rep s' p A t"
  using assms
proof (induction t arbitrary: p A)
  case Null
  then show ?case by simp
next
  case (Node l k v h r)
  from Node.prems(1) obtain a c Al Ar where
    x: "p = Some a" "cells s a = Some c" "ckey c = k" "cval c = v" "cheight c = h"
    "rep s (cleft c) Al l" "rep s (cright c) Ar r"
    "a \<notin> Al" "a \<notin> Ar" "Al \<inter> Ar = {}" "A = insert a (Al \<union> Ar)" by auto
  from Node.prems(2) x(2,11) obtain c' where
    c': "cells s' a = Some c'" "core c' = core c" by auto
  have l: "rep s' (cleft c) Al l" using Node.IH(1)[OF x(6)] Node.prems(2) x(11) by simp
  have r: "rep s' (cright c) Ar r" using Node.IH(2)[OF x(7)] Node.prems(2) x(11) by simp
  have "ckey c' = k" "cval c' = v" "cheight c' = h" "cleft c' = cleft c" "cright c' = cright c"
    using c'(2) x(3,4,5) by (simp_all add: core_def)
  then show ?case using x c'(1) l r by auto
qed

lemma rep_NodeE:
  assumes "rep s p A (Node l k v h r)"
  obtains a c Al Ar where "p = Some a" "cells s a = Some c" "ckey c = k" "cval c = v"
    "cheight c = h" "rep s (cleft c) Al l" "rep s (cright c) Ar r"
    "a \<notin> Al" "a \<notin> Ar" "Al \<inter> Ar = {}" "A = insert a (Al \<union> Ar)"
  using assms by auto

lemma rep_Node_ex:
  assumes "rep s p A (Node l k v h r)"
  shows "\<exists>a c Al Ar. p = Some a \<and> cells s a = Some c \<and> ckey c = k \<and> cval c = v
    \<and> rep s (cleft c) Al l \<and> rep s (cright c) Ar r
    \<and> a \<notin> Al \<and> a \<notin> Ar \<and> Al \<inter> Ar = {} \<and> A = insert a (Al \<union> Ar) \<and> cheight c = h"
  using assms by auto

lemma rep_NodeI:
  assumes "cells s a = Some c" "ckey c = k" "cval c = v" "cheight c = h"
    "rep s (cleft c) Al l" "rep s (cright c) Ar r"
    "a \<notin> Al" "a \<notin> Ar" "Al \<inter> Ar = {}" "A = insert a (Al \<union> Ar)"
  shows "rep s (Some a) A (Node l k v h r)"
  using assms by auto

lemma rep_same:
  assumes "rep s p A t" "\<forall>a \<in> A. cells s' a = cells s a"
  shows "rep s' p A t"
  using assms by (auto intro: rep_frame)

lemma rep_same2:
  assumes "rep s p A t" "\<And>a. a \<in> A \<Longrightarrow> cells s' a = cells s a"
  shows "rep s' p A t"
  using assms by (auto intro: rep_same)

lemma rep_height: "rep s p A t \<Longrightarrow> height_h s p = Some (Inr (height t))"
  by (cases t) (auto simp: height_h_def get_def)

lemma rep_dom: "rep s p A t \<Longrightarrow> a \<in> A \<Longrightarrow> cells s a \<noteq> None"
  by (induction t arbitrary: p A) auto

lemma rep_None: "rep s None A t \<longleftrightarrow> t = Null \<and> A = {}"
  by (cases t) auto

lemma rep_ptr_nn: "rep s p A t \<Longrightarrow> t \<noteq> Null \<Longrightarrow> p \<noteq> None"
  by (cases t) auto

lemma rep_lt: "wfs s \<Longrightarrow> rep s p A t \<Longrightarrow> a \<in> A \<Longrightarrow> a < fresh s"
  using rep_dom[of s p A t a] by (auto simp: wfs_def not_le[symmetric])

lemma rep_set_parent:
  assumes "rep s p A t" "t \<noteq> Null"
  shows "\<exists>s'. set_parent s p q = Some (Inr s') \<and> rep s' p A t
           \<and> (\<forall>a. a \<notin> A \<longrightarrow> cells s' a = cells s a) \<and> fresh s' = fresh s"
proof -
  from assms obtain l k v h r where t: "t = Node l k v h r" by (cases t) auto
  with assms(1) obtain a c where x: "p = Some a" "cells s a = Some c" "a \<in> A" by auto
  let ?s = "put s a (c\<lparr>cparent := q\<rparr>)"
  have "set_parent s p q = Some (Inr ?s)" using x by (simp add: set_parent_def get_def)
  moreover have "rep ?s p A t"
    by (rule rep_frame[OF assms(1)]) (auto simp: cells_put core_def x)
  moreover have "\<forall>b. b \<notin> A \<longrightarrow> cells ?s b = cells s b" using x(3) by (auto simp: cells_put)
  ultimately show ?thesis by (auto simp: fresh_put)
qed

lemma rep_updateHeight:
  assumes "rep s p A (Node l k v h r)"
  shows "\<exists>s'. updateHeight_h s p = Some (Inr s') \<and> rep s' p A (updateHeight (Node l k v h r))
           \<and> (\<forall>a. a \<notin> A \<longrightarrow> cells s' a = cells s a) \<and> fresh s' = fresh s
           \<and> (\<forall>a c. cells s a = Some c \<longrightarrow> (\<exists>c'. cells s' a = Some c' \<and> cparent c' = cparent c))"
proof -
  from assms obtain a c Al Ar where
    x: "p = Some a" "cells s a = Some c" "ckey c = k" "cval c = v" "cheight c = h"
    "rep s (cleft c) Al l" "rep s (cright c) Ar r"
    "a \<notin> Al" "a \<notin> Ar" "Al \<inter> Ar = {}" "A = insert a (Al \<union> Ar)" by auto
  let ?c = "c\<lparr>cheight := 1 + max (height l) (height r)\<rparr>"
  let ?s = "put s a ?c"
  have u: "updateHeight_h s p = Some (Inr ?s)"
    using x(1,2) rep_height[OF x(6)] rep_height[OF x(7)]
    by (simp add: updateHeight_h_def get_def)
  have l: "rep ?s (cleft c) Al l" by (rule rep_same[OF x(6)]) (use x(8) in \<open>auto simp: cells_put\<close>)
  have r: "rep ?s (cright c) Ar r" by (rule rep_same[OF x(7)]) (use x(9) in \<open>auto simp: cells_put\<close>)
  have "rep ?s p A (updateHeight (Node l k v h r))"
    using x l r by (auto simp: cells_put)
  moreover have "\<forall>b. b \<notin> A \<longrightarrow> cells ?s b = cells s b" using x(11) by (auto simp: cells_put)
  moreover have "\<forall>b d. cells s b = Some d \<longrightarrow> (\<exists>c'. cells ?s b = Some c' \<and> cparent c' = cparent d)"
    using x(2) by (auto simp: cells_put)
  ultimately show ?thesis using u by (auto simp: fresh_put)
qed

lemma rep_rotateRight:
  assumes "rep s y A t" "rotateRight t = Inr t'"
  shows "\<exists>x s'. rotateRight_h s y = Some (Inr (x, s')) \<and> rep s' x A t'
           \<and> (\<forall>a. a \<notin> A \<longrightarrow> cells s' a = cells s a) \<and> fresh s' = fresh s"
proof -
  from assms(2) obtain tl yk yv yh tc where t0: "t = Node tl yk yv yh tc"
    by (cases t) simp_all
  from assms(2) t0 obtain ta xk xv xh tb where tl: "tl = Node ta xk xv xh tb"
    by (cases tl) simp_all
  have t: "t = Node (Node ta xk xv xh tb) yk yv yh tc" using t0 tl by simp
  have t': "t' = updateHeight (Node ta xk xv xh (updateHeight (Node tb yk yv yh tc)))"
    using assms(2) unfolding t by simp
  from assms(1) have "rep s y A (Node (Node ta xk xv xh tb) yk yv yh tc)" by (simp only: t)
  from rep_Node_ex[OF this] obtain ya yc Ax Ac where
    y: "y = Some ya" "cells s ya = Some yc" "ckey yc = yk" "cval yc = yv"
    "rep s (cleft yc) Ax (Node ta xk xv xh tb)" "rep s (cright yc) Ac tc"
    "ya \<notin> Ax" "ya \<notin> Ac" "Ax \<inter> Ac = {}" "A = insert ya (Ax \<union> Ac)"
    by blast
  from rep_Node_ex[OF y(5)] obtain xa xc Aa Ab where
    x: "cleft yc = Some xa" "cells s xa = Some xc" "ckey xc = xk" "cval xc = xv"
    "rep s (cleft xc) Aa ta" "rep s (cright xc) Ab tb"
    "xa \<notin> Aa" "xa \<notin> Ab" "Aa \<inter> Ab = {}" "Ax = insert xa (Aa \<union> Ab)"
    by blast
  have ne: "xa \<noteq> ya" using y(7) x(10) by auto
  have nAa: "xa \<notin> Aa" "ya \<notin> Aa" and nAb: "xa \<notin> Ab" "ya \<notin> Ab"
    and nAc: "xa \<notin> Ac" "ya \<notin> Ac"
    using x(7,8,10) y(7,8,9) by auto
  have dis: "Aa \<inter> Ab = {}" "Aa \<inter> Ac = {}" "Ab \<inter> Ac = {}" using x(9,10) y(9) by auto
  define b where "b = cright xc"
  \<comment> \<open>y->left = x->right\<close>
  define s1 where "s1 = put s ya (yc\<lparr>cleft := b\<rparr>)"
  have e1: "set_left s y b = Some (Inr s1)"
    using y(1,2) by (simp add: set_left_def get_def s1_def)
  have same1: "cells s1 a = cells s a" if "a \<noteq> ya" for a
    using that by (simp add: s1_def cells_put)
  have rb1: "rep s1 b Ab tb" unfolding b_def
    by (rule rep_same2[OF x(6)]) (metis same1 nAb(2))
  \<comment> \<open>if (y->left) y->left->parent = y\<close>
  have "\<exists>s2. (if b \<noteq> None then set_parent s1 b y else Some (Inr s1)) = Some (Inr s2)
          \<and> rep s2 b Ab tb \<and> (\<forall>a. a \<notin> Ab \<longrightarrow> cells s2 a = cells s1 a)
          \<and> fresh s2 = fresh s1"
  proof (cases "b = None")
    case True
    then show ?thesis using rb1 by simp
  next
    case False
    then have "tb \<noteq> Null" using rb1 by (auto simp: rep_None)
    from rep_set_parent[OF rb1 this, of y] False show ?thesis by simp
  qed
  then obtain s2 where
    e2: "(if b \<noteq> None then set_parent s1 b y else Some (Inr s1)) = Some (Inr s2)"
    and rb2: "rep s2 b Ab tb" and f2: "\<And>a. a \<notin> Ab \<Longrightarrow> cells s2 a = cells s1 a"
    and fr2: "fresh s2 = fresh s1" by blast
  have cx2: "cells s2 xa = Some xc" using f2[OF nAb(1)] ne x(2) by (simp add: same1)
  have cy2: "cells s2 ya = Some (yc\<lparr>cleft := b\<rparr>)"
    using f2[OF nAb(2)] by (simp add: s1_def cells_put)
  \<comment> \<open>x->right = y\<close>
  define s3 where "s3 = put s2 xa (xc\<lparr>cright := y\<rparr>)"
  have e3: "set_right s2 (cleft yc) y = Some (Inr s3)"
    using x(1) cx2 by (simp add: set_right_def get_def s3_def)
  \<comment> \<open>x->right->parent = x\<close>
  define s4 where "s4 = put s3 ya (yc\<lparr>cleft := b, cparent := cleft yc\<rparr>)"
  have e4: "set_parent s3 y (cleft yc) = Some (Inr s4)"
    using y(1) cy2 ne by (simp add: set_parent_def get_def s3_def s4_def cells_put)
  have same4: "cells s4 a = cells s2 a" if "a \<noteq> xa" "a \<noteq> ya" for a
    using that by (simp add: s4_def s3_def cells_put)
  have rb4: "rep s4 b Ab tb"
    by (rule rep_same2[OF rb2]) (metis same4 nAb)
  have rc4: "rep s4 (cright yc) Ac tc"
  proof (rule rep_same2[OF y(6)])
    fix a assume a: "a \<in> Ac"
    then have "a \<noteq> xa" "a \<noteq> ya" "a \<notin> Ab" using nAc dis by auto
    then show "cells s4 a = cells s a" using same4 f2 same1 by simp
  qed
  have ra4: "rep s4 (cleft xc) Aa ta"
  proof (rule rep_same2[OF x(5)])
    fix a assume a: "a \<in> Aa"
    then have "a \<noteq> xa" "a \<noteq> ya" "a \<notin> Ab" using nAa dis by auto
    then show "cells s4 a = cells s a" using same4 f2 same1 by simp
  qed
  \<comment> \<open>updateHeight(x->right)\<close>
  define hy where "hy = 1 + max (height tb) (height tc)"
  define cy where "cy = yc\<lparr>cleft := b, cparent := cleft yc, cheight := hy\<rparr>"
  define s5 where "s5 = put s4 ya cy"
  have e5: "updateHeight_h s4 y = Some (Inr s5)"
    using y(1) rep_height[OF rb4] rep_height[OF rc4]
    by (simp add: updateHeight_h_def get_def s4_def cells_put s5_def cy_def hy_def)
  have same5: "cells s5 a = cells s4 a" if "a \<noteq> ya" for a
    using that by (simp add: s5_def cells_put)
  have rb5: "rep s5 b Ab tb" by (rule rep_same2[OF rb4]) (metis same5 nAb(2))
  have rc5: "rep s5 (cright yc) Ac tc" by (rule rep_same2[OF rc4]) (metis same5 nAc(2))
  have ra5: "rep s5 (cleft xc) Aa ta" by (rule rep_same2[OF ra4]) (metis same5 nAa(2))
  have c5: "cells s5 ya = Some cy" by (simp add: s5_def cells_put)
  have ry5: "rep s5 y (insert ya (Ab \<union> Ac)) (Node tb yk yv hy tc)"
    unfolding y(1)
  proof (rule rep_NodeI[OF c5, where Al = Ab and Ar = Ac])
    show "rep s5 (cleft cy) Ab tb" using rb5 by (simp add: cy_def)
    show "rep s5 (cright cy) Ac tc" using rc5 by (simp add: cy_def)
  qed (use y(3,4) nAb nAc dis in \<open>simp_all add: cy_def\<close>)
  \<comment> \<open>updateHeight(x)\<close>
  define hx where "hx = 1 + max (height ta) hy"
  define cx where "cx = xc\<lparr>cright := y, cheight := hx\<rparr>"
  define s6 where "s6 = put s5 xa cx"
  have cx5: "cells s5 xa = Some (xc\<lparr>cright := y\<rparr>)"
    using ne by (simp add: s5_def s4_def s3_def cells_put)
  have e6: "updateHeight_h s5 (cleft yc) = Some (Inr s6)"
    using x(1) cx5 rep_height[OF ra5] rep_height[OF ry5]
    by (simp add: updateHeight_h_def get_def s6_def cx_def hx_def)
  \<comment> \<open>x->parent = x->right->parent.lock()\<close>
  define s7 where "s7 = put s6 xa (cx\<lparr>cparent := cleft yc\<rparr>)"
  have g6: "get s6 y = Some (Inr (ya, cy))"
    using y(1) ne by (simp add: get_def s6_def s5_def cells_put)
  have l6: "lock s6 (cparent cy) = cleft yc"
    using x(1) by (simp add: lock_def cy_def s6_def cells_put)
  have e7: "set_parent s6 (cleft yc) (cleft yc) = Some (Inr s7)"
    using x(1) by (simp add: set_parent_def get_def s6_def s7_def cells_put)
  have g0: "get s y = Some (Inr (ya, yc))" using y(1,2) by (simp add: get_def)
  have g1: "get s (cleft yc) = Some (Inr (xa, xc))" using x(1,2) by (simp add: get_def)
  have run: "rotateRight_h s y = Some (Inr (cleft yc, s7))"
  proof (cases "b = None")
    case True
    with e2 have "s2 = s1" by simp
    with True show ?thesis
      unfolding rotateRight_h_def using e1 e3 e4 e5 e6 e7 g6 l6
      by (simp add: g0 g1 b_def[symmetric] Let_def)
  next
    case False
    with e2 have "set_parent s1 b y = Some (Inr s2)" by simp
    with False show ?thesis
      unfolding rotateRight_h_def using e1 e3 e4 e5 e6 e7 g6 l6
      by (simp add: g0 g1 b_def[symmetric] Let_def)
  qed
  have same7: "cells s7 a = cells s5 a" if "a \<noteq> xa" for a
    using that by (simp add: s7_def s6_def cells_put)
  have ra7: "rep s7 (cleft xc) Aa ta" by (rule rep_same2[OF ra5]) (metis same7 nAa(1))
  have ry7: "rep s7 y (insert ya (Ab \<union> Ac)) (Node tb yk yv hy tc)"
  proof (rule rep_same2[OF ry5])
    fix a assume "a \<in> insert ya (Ab \<union> Ac)"
    then have "a \<noteq> xa" using ne nAb nAc by auto
    then show "cells s7 a = cells s5 a" by (rule same7)
  qed
  have fp: "A = insert xa (Aa \<union> insert ya (Ab \<union> Ac))" using y(10) x(10) by auto
  have c7: "cells s7 xa = Some (cx\<lparr>cparent := cleft yc\<rparr>)" by (simp add: s7_def cells_put)
  have "rep s7 (cleft yc) A (Node ta xk xv hx (Node tb yk yv hy tc))"
    unfolding x(1)
  proof (rule rep_NodeI[OF c7, where Al = Aa and Ar = "insert ya (Ab \<union> Ac)"])
    show "rep s7 (cleft (cx\<lparr>cparent := cleft yc\<rparr>)) Aa ta" using ra7 by (simp add: cx_def)
    show "rep s7 (cright (cx\<lparr>cparent := cleft yc\<rparr>)) (insert ya (Ab \<union> Ac))
            (Node tb yk yv hy tc)" using ry7 by (simp add: cx_def)
    show "Aa \<inter> insert ya (Ab \<union> Ac) = {}" using nAa dis by auto
    show "xa \<notin> insert ya (Ab \<union> Ac)" using ne nAb nAc by auto
  qed (use x(3,4) nAa fp in \<open>simp_all add: cx_def\<close>)
  then have rep7: "rep s7 (cleft yc) A t'" by (simp add: t' hx_def hy_def)
  have fr: "cells s7 a = cells s a" if "a \<notin> A" for a
  proof -
    from that have n: "a \<noteq> xa" "a \<noteq> ya" "a \<notin> Ab" using y(10) x(10) by auto
    have "cells s7 a = cells s4 a" using n same7 same5 by simp
    also have "\<dots> = cells s2 a" using n same4 by simp
    also have "\<dots> = cells s1 a" using n f2 by simp
    also have "\<dots> = cells s a" using n same1 by simp
    finally show ?thesis .
  qed
  have "fresh s7 = fresh s"
    using fr2 by (simp add: s7_def s6_def s5_def s4_def s3_def s1_def fresh_put)
  with run rep7 fr show ?thesis by blast
qed

lemma rep_rotateLeft:
  assumes "rep s x A t" "rotateLeft t = Inr t'"
  shows "\<exists>y s'. rotateLeft_h s x = Some (Inr (y, s')) \<and> rep s' y A t'
           \<and> (\<forall>a. a \<notin> A \<longrightarrow> cells s' a = cells s a) \<and> fresh s' = fresh s"
proof -
  from assms(2) obtain ta xk xv xh tr where t0: "t = Node ta xk xv xh tr"
    by (cases t) simp_all
  from assms(2) t0 obtain tb yk yv yh tc where tr: "tr = Node tb yk yv yh tc"
    by (cases tr) simp_all
  have t: "t = Node ta xk xv xh (Node tb yk yv yh tc)" using t0 tr by simp
  have t': "t' = updateHeight (Node (updateHeight (Node ta xk xv xh tb)) yk yv yh tc)"
    using assms(2) unfolding t by simp
  from assms(1) have "rep s x A (Node ta xk xv xh (Node tb yk yv yh tc))" by (simp only: t)
  from rep_Node_ex[OF this] obtain pa pc Aa Aq where
    p: "x = Some pa" "cells s pa = Some pc" "ckey pc = xk" "cval pc = xv"
    "rep s (cleft pc) Aa ta" "rep s (cright pc) Aq (Node tb yk yv yh tc)"
    "pa \<notin> Aa" "pa \<notin> Aq" "Aa \<inter> Aq = {}" "A = insert pa (Aa \<union> Aq)"
    by blast
  from rep_Node_ex[OF p(6)] obtain qa qc Ab Ac where
    q: "cright pc = Some qa" "cells s qa = Some qc" "ckey qc = yk" "cval qc = yv"
    "rep s (cleft qc) Ab tb" "rep s (cright qc) Ac tc"
    "qa \<notin> Ab" "qa \<notin> Ac" "Ab \<inter> Ac = {}" "Aq = insert qa (Ab \<union> Ac)"
    by blast
  have ne: "qa \<noteq> pa" using p(8) q(10) by auto
  have nAa: "qa \<notin> Aa" "pa \<notin> Aa" and nAb: "qa \<notin> Ab" "pa \<notin> Ab"
    and nAc: "qa \<notin> Ac" "pa \<notin> Ac"
    using q(7,8,10) p(7,8,9) by auto
  have dis: "Aa \<inter> Ab = {}" "Aa \<inter> Ac = {}" "Ab \<inter> Ac = {}" using q(9,10) p(9) by auto
  define b where "b = cleft qc"
  \<comment> \<open>x->right = y->left\<close>
  define s1 where "s1 = put s pa (pc\<lparr>cright := b\<rparr>)"
  have e1: "set_right s x b = Some (Inr s1)"
    using p(1,2) by (simp add: set_right_def get_def s1_def)
  have same1: "cells s1 a = cells s a" if "a \<noteq> pa" for a
    using that by (simp add: s1_def cells_put)
  have rb1: "rep s1 b Ab tb" unfolding b_def
    by (rule rep_same2[OF q(5)]) (metis same1 nAb(2))
  \<comment> \<open>if (x->right) x->right->parent = x\<close>
  have "\<exists>s2. (if b \<noteq> None then set_parent s1 b x else Some (Inr s1)) = Some (Inr s2)
          \<and> rep s2 b Ab tb \<and> (\<forall>a. a \<notin> Ab \<longrightarrow> cells s2 a = cells s1 a)
          \<and> fresh s2 = fresh s1"
  proof (cases "b = None")
    case True
    then show ?thesis using rb1 by simp
  next
    case False
    then have "tb \<noteq> Null" using rb1 by (auto simp: rep_None)
    from rep_set_parent[OF rb1 this, of x] False show ?thesis by simp
  qed
  then obtain s2 where
    e2: "(if b \<noteq> None then set_parent s1 b x else Some (Inr s1)) = Some (Inr s2)"
    and rb2: "rep s2 b Ab tb" and f2: "\<And>a. a \<notin> Ab \<Longrightarrow> cells s2 a = cells s1 a"
    and fr2: "fresh s2 = fresh s1" by blast
  have cq2: "cells s2 qa = Some qc" using f2[OF nAb(1)] ne q(2) by (simp add: same1)
  have cp2: "cells s2 pa = Some (pc\<lparr>cright := b\<rparr>)"
    using f2[OF nAb(2)] by (simp add: s1_def cells_put)
  \<comment> \<open>y->left = x\<close>
  define s3 where "s3 = put s2 qa (qc\<lparr>cleft := x\<rparr>)"
  have e3: "set_left s2 (cright pc) x = Some (Inr s3)"
    using q(1) cq2 by (simp add: set_left_def get_def s3_def)
  \<comment> \<open>y->left->parent = y\<close>
  define s4 where "s4 = put s3 pa (pc\<lparr>cright := b, cparent := cright pc\<rparr>)"
  have e4: "set_parent s3 x (cright pc) = Some (Inr s4)"
    using p(1) cp2 ne by (simp add: set_parent_def get_def s3_def s4_def cells_put)
  have same4: "cells s4 a = cells s2 a" if "a \<noteq> qa" "a \<noteq> pa" for a
    using that by (simp add: s4_def s3_def cells_put)
  have rb4: "rep s4 b Ab tb"
    by (rule rep_same2[OF rb2]) (metis same4 nAb)
  have rc4: "rep s4 (cright qc) Ac tc"
  proof (rule rep_same2[OF q(6)])
    fix a assume a: "a \<in> Ac"
    then have "a \<noteq> qa" "a \<noteq> pa" "a \<notin> Ab" using nAc dis by auto
    then show "cells s4 a = cells s a" using same4 f2 same1 by simp
  qed
  have ra4: "rep s4 (cleft pc) Aa ta"
  proof (rule rep_same2[OF p(5)])
    fix a assume a: "a \<in> Aa"
    then have "a \<noteq> qa" "a \<noteq> pa" "a \<notin> Ab" using nAa dis by auto
    then show "cells s4 a = cells s a" using same4 f2 same1 by simp
  qed
  \<comment> \<open>updateHeight(y->left)\<close>
  define hp where "hp = 1 + max (height ta) (height tb)"
  define cp where "cp = pc\<lparr>cright := b, cparent := cright pc, cheight := hp\<rparr>"
  define s5 where "s5 = put s4 pa cp"
  have e5: "updateHeight_h s4 x = Some (Inr s5)"
    using p(1) rep_height[OF ra4] rep_height[OF rb4]
    by (simp add: updateHeight_h_def get_def s4_def cells_put s5_def cp_def hp_def)
  have same5: "cells s5 a = cells s4 a" if "a \<noteq> pa" for a
    using that by (simp add: s5_def cells_put)
  have rb5: "rep s5 b Ab tb" by (rule rep_same2[OF rb4]) (metis same5 nAb(2))
  have rc5: "rep s5 (cright qc) Ac tc" by (rule rep_same2[OF rc4]) (metis same5 nAc(2))
  have ra5: "rep s5 (cleft pc) Aa ta" by (rule rep_same2[OF ra4]) (metis same5 nAa(2))
  have c5: "cells s5 pa = Some cp" by (simp add: s5_def cells_put)
  have rp5: "rep s5 x (insert pa (Aa \<union> Ab)) (Node ta xk xv hp tb)"
    unfolding p(1)
  proof (rule rep_NodeI[OF c5, where Al = Aa and Ar = Ab])
    show "rep s5 (cleft cp) Aa ta" using ra5 by (simp add: cp_def)
    show "rep s5 (cright cp) Ab tb" using rb5 by (simp add: cp_def)
  qed (use p(3,4) nAa nAb dis in \<open>simp_all add: cp_def\<close>)
  \<comment> \<open>updateHeight(y)\<close>
  define hq where "hq = 1 + max hp (height tc)"
  define cq where "cq = qc\<lparr>cleft := x, cheight := hq\<rparr>"
  define s6 where "s6 = put s5 qa cq"
  have cq5: "cells s5 qa = Some (qc\<lparr>cleft := x\<rparr>)"
    using ne by (simp add: s5_def s4_def s3_def cells_put)
  have e6: "updateHeight_h s5 (cright pc) = Some (Inr s6)"
    using q(1) cq5 rep_height[OF rc5] rep_height[OF rp5]
    by (simp add: updateHeight_h_def get_def s6_def cq_def hq_def)
  \<comment> \<open>y->parent = y->left->parent.lock()\<close>
  define s7 where "s7 = put s6 qa (cq\<lparr>cparent := cright pc\<rparr>)"
  have g6: "get s6 x = Some (Inr (pa, cp))"
    using p(1) ne by (simp add: get_def s6_def s5_def cells_put)
  have l6: "lock s6 (cparent cp) = cright pc"
    using q(1) by (simp add: lock_def cp_def s6_def cells_put)
  have e7: "set_parent s6 (cright pc) (cright pc) = Some (Inr s7)"
    using q(1) by (simp add: set_parent_def get_def s6_def s7_def cells_put)
  have g0: "get s x = Some (Inr (pa, pc))" using p(1,2) by (simp add: get_def)
  have g1: "get s (cright pc) = Some (Inr (qa, qc))" using q(1,2) by (simp add: get_def)
  have run: "rotateLeft_h s x = Some (Inr (cright pc, s7))"
  proof (cases "b = None")
    case True
    with e2 have "s2 = s1" by simp
    with True show ?thesis
      unfolding rotateLeft_h_def using e1 e3 e4 e5 e6 e7 g6 l6
      by (simp add: g0 g1 b_def[symmetric] Let_def)
  next
    case False
    with e2 have "set_parent s1 b x = Some (Inr s2)" by simp
    with False show ?thesis
      unfolding rotateLeft_h_def using e1 e3 e4 e5 e6 e7 g6 l6
      by (simp add: g0 g1 b_def[symmetric] Let_def)
  qed
  have same7: "cells s7 a = cells s5 a" if "a \<noteq> qa" for a
    using that by (simp add: s7_def s6_def cells_put)
  have rc7: "rep s7 (cright qc) Ac tc" by (rule rep_same2[OF rc5]) (metis same7 nAc(1))
  have rp7: "rep s7 x (insert pa (Aa \<union> Ab)) (Node ta xk xv hp tb)"
  proof (rule rep_same2[OF rp5])
    fix a assume "a \<in> insert pa (Aa \<union> Ab)"
    then have "a \<noteq> qa" using ne nAa nAb by auto
    then show "cells s7 a = cells s5 a" by (rule same7)
  qed
  have fp: "A = insert qa (insert pa (Aa \<union> Ab) \<union> Ac)" using p(10) q(10) by auto
  have c7: "cells s7 qa = Some (cq\<lparr>cparent := cright pc\<rparr>)" by (simp add: s7_def cells_put)
  have "rep s7 (cright pc) A (Node (Node ta xk xv hp tb) yk yv hq tc)"
    unfolding q(1)
  proof (rule rep_NodeI[OF c7, where Al = "insert pa (Aa \<union> Ab)" and Ar = Ac])
    show "rep s7 (cleft (cq\<lparr>cparent := cright pc\<rparr>)) (insert pa (Aa \<union> Ab))
            (Node ta xk xv hp tb)" using rp7 by (simp add: cq_def)
    show "rep s7 (cright (cq\<lparr>cparent := cright pc\<rparr>)) Ac tc" using rc7 by (simp add: cq_def)
    show "insert pa (Aa \<union> Ab) \<inter> Ac = {}" using nAc dis by auto
    show "qa \<notin> insert pa (Aa \<union> Ab)" using ne nAa nAb by auto
  qed (use q(3,4) nAc fp in \<open>simp_all add: cq_def\<close>)
  then have rep7: "rep s7 (cright pc) A t'" by (simp add: t' hp_def hq_def)
  have fr: "cells s7 a = cells s a" if "a \<notin> A" for a
  proof -
    from that have n: "a \<noteq> qa" "a \<noteq> pa" "a \<notin> Ab" using p(10) q(10) by auto
    have "cells s7 a = cells s4 a" using n same7 same5 by simp
    also have "\<dots> = cells s2 a" using n same4 by simp
    also have "\<dots> = cells s1 a" using n f2 by simp
    also have "\<dots> = cells s a" using n same1 by simp
    finally show ?thesis .
  qed
  have "fresh s7 = fresh s"
    using fr2 by (simp add: s7_def s6_def s5_def s4_def s3_def s1_def fresh_put)
  with run rep7 fr show ?thesis by blast
qed

lemma rep_balanceFactor: "rep s p A t \<Longrightarrow> balanceFactor_h s p = Some (Inr (balanceFactor t))"
proof (cases t)
  case Null
  then show "rep s p A t \<Longrightarrow> ?thesis" by (simp add: balanceFactor_h_def)
next
  case (Node l k v h r)
  assume "rep s p A t"
  with Node have "rep s p A (Node l k v h r)" by simp
  from rep_Node_ex[OF this] obtain a c Al Ar where
    x: "p = Some a" "cells s a = Some c" "rep s (cleft c) Al l" "rep s (cright c) Ar r" by blast
  show ?thesis
    using x(1,2) rep_height[OF x(3)] rep_height[OF x(4)] Node
    by (simp add: balanceFactor_h_def get_def)
qed

lemma rotateRight_not_Null: "rotateRight t = Inr t' \<Longrightarrow> t' \<noteq> Null"
  by (cases t rule: rotateRight.cases) auto

lemma rotateLeft_not_Null: "rotateLeft t = Inr t' \<Longrightarrow> t' \<noteq> Null"
  by (cases t rule: rotateLeft.cases) auto

lemma rep_rotateRight_reset:
  assumes "rep s n A t" "rotateRight t = Inr t'"
  shows "\<exists>q s'. bnd (rotateRight_h s n) (\<lambda>(newRoot, s4).
              bnd (set_parent s4 newRoot None) (\<lambda>s5. ret (newRoot, s5))) = Some (Inr (q, s'))
           \<and> rep s' q A t'
           \<and> (\<forall>a. a \<notin> A \<longrightarrow> cells s' a = cells s a) \<and> fresh s' = fresh s"
proof -
  from rep_rotateRight[OF assms] obtain x s4 where
    r: "rotateRight_h s n = Some (Inr (x, s4))" "rep s4 x A t'"
    "\<forall>a. a \<notin> A \<longrightarrow> cells s4 a = cells s a" "fresh s4 = fresh s" by blast
  from rep_set_parent[OF r(2) rotateRight_not_Null[OF assms(2)], of None] obtain s5 where
    p: "set_parent s4 x None = Some (Inr s5)" "rep s5 x A t'"
    "\<forall>a. a \<notin> A \<longrightarrow> cells s5 a = cells s4 a" "fresh s5 = fresh s4" by blast
  show ?thesis using r p by simp
qed

lemma rep_rotateLeft_reset:
  assumes "rep s n A t" "rotateLeft t = Inr t'"
  shows "\<exists>q s'. bnd (rotateLeft_h s n) (\<lambda>(newRoot, s4).
              bnd (set_parent s4 newRoot None) (\<lambda>s5. ret (newRoot, s5))) = Some (Inr (q, s'))
           \<and> rep s' q A t'
           \<and> (\<forall>a. a \<notin> A \<longrightarrow> cells s' a = cells s a) \<and> fresh s' = fresh s"
proof -
  from rep_rotateLeft[OF assms] obtain x s4 where
    r: "rotateLeft_h s n = Some (Inr (x, s4))" "rep s4 x A t'"
    "\<forall>a. a \<notin> A \<longrightarrow> cells s4 a = cells s a" "fresh s4 = fresh s" by blast
  from rep_set_parent[OF r(2) rotateLeft_not_Null[OF assms(2)], of None] obtain s5 where
    p: "set_parent s4 x None = Some (Inr s5)" "rep s5 x A t'"
    "\<forall>a. a \<notin> A \<longrightarrow> cells s5 a = cells s4 a" "fresh s5 = fresh s4" by blast
  show ?thesis using r p by simp
qed

lemma rep_balance:
  assumes "rep s n A (Node l k v h r)" "balance (Node l k v h r) = Inr t'"
  shows "\<exists>q s'. balance_h s n = Some (Inr (q, s')) \<and> rep s' q A t'
           \<and> (\<forall>a. a \<notin> A \<longrightarrow> cells s' a = cells s a) \<and> fresh s' = fresh s"
proof -
  from rep_Node_ex[OF assms(1)] obtain na nc Al Ar where
    n: "n = Some na" "cells s na = Some nc" "ckey nc = k" "cval nc = v"
    "rep s (cleft nc) Al l" "rep s (cright nc) Ar r"
    "na \<notin> Al" "na \<notin> Ar" "Al \<inter> Ar = {}" "A = insert na (Al \<union> Ar)" by blast
  define h' where "h' = 1 + max (height l) (height r)"
  define nc1 where "nc1 = nc\<lparr>cheight := h'\<rparr>"
  define s1 where "s1 = put s na nc1"
  have u: "updateHeight_h s n = Some (Inr s1)"
    using n(1,2) rep_height[OF n(5)] rep_height[OF n(6)]
    by (simp add: updateHeight_h_def get_def s1_def nc1_def h'_def)
  have same1: "cells s1 a = cells s a" if "a \<noteq> na" for a
    using that by (simp add: s1_def cells_put)
  have c1: "cells s1 na = Some nc1" by (simp add: s1_def cells_put)
  have g1: "get s1 n = Some (Inr (na, nc1))" using n(1) c1 by (simp add: get_def)
  have rl1: "rep s1 (cleft nc) Al l" by (rule rep_same2[OF n(5)]) (metis same1 n(7))
  have rr1: "rep s1 (cright nc) Ar r" by (rule rep_same2[OF n(6)]) (metis same1 n(8))
  have rn1: "rep s1 n A (Node l k v h' r)" unfolding n(1)
    by (rule rep_NodeI[OF c1, where Al = Al and Ar = Ar])
       (use n(3,4,7,8,9,10) rl1 rr1 in \<open>simp_all add: nc1_def\<close>)
  have bf: "balanceFactor_h s1 n = Some (Inr (height l - height r))"
    using rep_balanceFactor[OF rn1] by simp
  have fr1: "fresh s1 = fresh s" by (simp add: s1_def fresh_put)
  have up: "updateHeight (Node l k v h r) = Node l k v h' r" by (simp add: h'_def)
  consider (L) "height l - height r > 1" | (R) "\<not> height l - height r > 1" "height l - height r < - 1"
    | (M) "\<not> height l - height r > 1" "\<not> height l - height r < - 1" by linarith
  then show ?thesis
  proof cases
    case L
    have bl: "balanceFactor_h s1 (cleft nc) = Some (Inr (balanceFactor l))"
      by (rule rep_balanceFactor[OF rl1])
    show ?thesis
    proof (cases "balanceFactor l < 0")
      case True
      from assms(2) L True obtain l' where
        l': "rotateLeft l = Inr l'" and rr: "rotateRight (Node l' k v h' r) = Inr t'"
        by (auto simp: balance_def up[unfolded updateHeight.simps] h'_def split: sum.splits)
      from rep_rotateLeft[OF rl1 l'] obtain lp s2 where
        r2: "rotateLeft_h s1 (cleft nc) = Some (Inr (lp, s2))" "rep s2 lp Al l'"
        "\<forall>a. a \<notin> Al \<longrightarrow> cells s2 a = cells s1 a" "fresh s2 = fresh s1" by blast
      define s3 where "s3 = put s2 na (nc1\<lparr>cleft := lp\<rparr>)"
      have c2: "cells s2 na = Some nc1" using r2(3) n(7) c1 by simp
      have e3: "set_left s2 n lp = Some (Inr s3)"
        using n(1) c2 by (simp add: set_left_def get_def s3_def)
      have same3: "cells s3 a = cells s2 a" if "a \<noteq> na" for a
        using that by (simp add: s3_def cells_put)
      have rl3: "rep s3 lp Al l'" by (rule rep_same2[OF r2(2)]) (metis same3 n(7))
      have rr3: "rep s3 (cright nc) Ar r"
      proof (rule rep_same2[OF rr1])
        fix a assume "a \<in> Ar"
        then have "a \<noteq> na" "a \<notin> Al" using n(8,9) by auto
        then show "cells s3 a = cells s1 a" using same3 r2(3) by simp
      qed
      have c3: "cells s3 na = Some (nc1\<lparr>cleft := lp\<rparr>)" by (simp add: s3_def cells_put)
      have rn3: "rep s3 n A (Node l' k v h' r)" unfolding n(1)
        by (rule rep_NodeI[OF c3, where Al = Al and Ar = Ar])
           (use n(3,4,7,8,9,10) rl3 rr3 in \<open>simp_all add: nc1_def\<close>)
      from rep_rotateRight_reset[OF rn3 rr] obtain q s5 where
        f: "bnd (rotateRight_h s3 n) (\<lambda>(newRoot, s4).
              bnd (set_parent s4 newRoot None) (\<lambda>s5. ret (newRoot, s5))) = Some (Inr (q, s5))"
        "rep s5 q A t'" "\<forall>a. a \<notin> A \<longrightarrow> cells s5 a = cells s3 a" "fresh s5 = fresh s3"
        by blast
      have run: "balance_h s n = Some (Inr (q, s5))"
        unfolding balance_h_def using L True f(1)
        by (simp add: u bf g1 bl nc1_def r2(1) e3)
      have "cells s5 a = cells s a" if "a \<notin> A" for a
      proof -
        from that have "a \<noteq> na" "a \<notin> Al" using n(10) by auto
        then show ?thesis using f(3) that same3 r2(3) same1 by simp
      qed
      moreover have "fresh s5 = fresh s" using f(4) r2(4) fr1 by (simp add: s3_def fresh_put)
      ultimately show ?thesis using run f(2) by blast
    next
      case False
      from assms(2) L False have rr: "rotateRight (Node l k v h' r) = Inr t'"
        by (auto simp: balance_def h'_def)
      from rep_rotateRight_reset[OF rn1 rr] obtain q s5 where
        f: "bnd (rotateRight_h s1 n) (\<lambda>(newRoot, s4).
              bnd (set_parent s4 newRoot None) (\<lambda>s5. ret (newRoot, s5))) = Some (Inr (q, s5))"
        "rep s5 q A t'" "\<forall>a. a \<notin> A \<longrightarrow> cells s5 a = cells s1 a" "fresh s5 = fresh s1"
        by blast
      have run: "balance_h s n = Some (Inr (q, s5))"
        unfolding balance_h_def using L False f(1)
        by (simp add: u bf g1 bl nc1_def)
      have "cells s5 a = cells s a" if "a \<notin> A" for a
      proof -
        from that have "a \<noteq> na" using n(10) by auto
        then show ?thesis using f(3) that same1 by simp
      qed
      moreover have "fresh s5 = fresh s" using f(4) fr1 by simp
      ultimately show ?thesis using run f(2) by blast
    qed
  next
    case R
    have br: "balanceFactor_h s1 (cright nc) = Some (Inr (balanceFactor r))"
      by (rule rep_balanceFactor[OF rr1])
    show ?thesis
    proof (cases "balanceFactor r > 0")
      case True
      from assms(2) R True obtain r' where
        r': "rotateRight r = Inr r'" and rl: "rotateLeft (Node l k v h' r') = Inr t'"
        by (auto simp: balance_def h'_def split: sum.splits)
      from rep_rotateRight[OF rr1 r'] obtain rp s2 where
        r2: "rotateRight_h s1 (cright nc) = Some (Inr (rp, s2))" "rep s2 rp Ar r'"
        "\<forall>a. a \<notin> Ar \<longrightarrow> cells s2 a = cells s1 a" "fresh s2 = fresh s1" by blast
      define s3 where "s3 = put s2 na (nc1\<lparr>cright := rp\<rparr>)"
      have c2: "cells s2 na = Some nc1" using r2(3) n(8) c1 by simp
      have e3: "set_right s2 n rp = Some (Inr s3)"
        using n(1) c2 by (simp add: set_right_def get_def s3_def)
      have same3: "cells s3 a = cells s2 a" if "a \<noteq> na" for a
        using that by (simp add: s3_def cells_put)
      have rr3: "rep s3 rp Ar r'" by (rule rep_same2[OF r2(2)]) (metis same3 n(8))
      have rl3: "rep s3 (cleft nc) Al l"
      proof (rule rep_same2[OF rl1])
        fix a assume "a \<in> Al"
        then have "a \<noteq> na" "a \<notin> Ar" using n(7,9) by auto
        then show "cells s3 a = cells s1 a" using same3 r2(3) by simp
      qed
      have c3: "cells s3 na = Some (nc1\<lparr>cright := rp\<rparr>)" by (simp add: s3_def cells_put)
      have rn3: "rep s3 n A (Node l k v h' r')" unfolding n(1)
        by (rule rep_NodeI[OF c3, where Al = Al and Ar = Ar])
           (use n(3,4,7,8,9,10) rl3 rr3 in \<open>simp_all add: nc1_def\<close>)
      from rep_rotateLeft_reset[OF rn3 rl] obtain q s5 where
        f: "bnd (rotateLeft_h s3 n) (\<lambda>(newRoot, s4).
              bnd (set_parent s4 newRoot None) (\<lambda>s5. ret (newRoot, s5))) = Some (Inr (q, s5))"
        "rep s5 q A t'" "\<forall>a. a \<notin> A \<longrightarrow> cells s5 a = cells s3 a" "fresh s5 = fresh s3"
        by blast
      have run: "balance_h s n = Some (Inr (q, s5))"
        unfolding balance_h_def using R True f(1)
        by (simp add: u bf g1 br nc1_def r2(1) e3)
      have "cells s5 a = cells s a" if "a \<notin> A" for a
      proof -
        from that have "a \<noteq> na" "a \<notin> Ar" using n(10) by auto
        then show ?thesis using f(3) that same3 r2(3) same1 by simp
      qed
      moreover have "fresh s5 = fresh s" using f(4) r2(4) fr1 by (simp add: s3_def fresh_put)
      ultimately show ?thesis using run f(2) by blast
    next
      case False
      from assms(2) R False have rl: "rotateLeft (Node l k v h' r) = Inr t'"
        by (auto simp: balance_def h'_def)
      from rep_rotateLeft_reset[OF rn1 rl] obtain q s5 where
        f: "bnd (rotateLeft_h s1 n) (\<lambda>(newRoot, s4).
              bnd (set_parent s4 newRoot None) (\<lambda>s5. ret (newRoot, s5))) = Some (Inr (q, s5))"
        "rep s5 q A t'" "\<forall>a. a \<notin> A \<longrightarrow> cells s5 a = cells s1 a" "fresh s5 = fresh s1"
        by blast
      have run: "balance_h s n = Some (Inr (q, s5))"
        unfolding balance_h_def using R False f(1)
        by (simp add: u bf g1 br nc1_def)
      have "cells s5 a = cells s a" if "a \<notin> A" for a
      proof -
        from that have "a \<noteq> na" using n(10) by auto
        then show ?thesis using f(3) that same1 by simp
      qed
      moreover have "fresh s5 = fresh s" using f(4) fr1 by simp
      ultimately show ?thesis using run f(2) by blast
    qed
  next
    case M
    from assms(2) M have t': "t' = Node l k v h' r" by (auto simp: balance_def h'_def)
    have run: "balance_h s n = Some (Inr (n, s1))"
      unfolding balance_h_def using M by (simp add: u bf)
    have "cells s1 a = cells s a" if "a \<notin> A" for a
      using that n(10) same1 by auto
    then show ?thesis using run rn1 t' fr1 by blast
  qed
qed

lemma rep_minValueNode:
  assumes "rep s p A t" "minValueNode t = Inr m"
  shows "\<exists>ma mc ml mk mv mh mr. m = Node ml mk mv mh mr
           \<and> minValueNode_h s p = Some (Inr (Some ma))
           \<and> cells s ma = Some mc \<and> ckey mc = mk \<and> cval mc = mv \<and> ma \<in> A"
  using assms
proof (induction t arbitrary: p A)
  case Null
  then show ?case by simp
next
  case (Node l k v h r)
  from rep_Node_ex[OF Node.prems(1)] obtain a c Al Ar where
    x: "p = Some a" "cells s a = Some c" "ckey c = k" "cval c = v"
    "rep s (cleft c) Al l" "rep s (cright c) Ar r" "A = insert a (Al \<union> Ar)" by blast
  show ?case
  proof (cases l)
    case Null
    with x(5) have "cleft c = None" by simp
    then have "minValueNode_h s p = Some (Inr (Some a))"
      using x(1,2) by (subst minValueNode_h.simps) (simp add: get_def)
    moreover have "m = Node Null k v h r" using Node.prems(2) Null by simp
    ultimately show ?thesis using x by auto
  next
    case (Node ll lk lv lh lr)
    with x(5) have nn: "cleft c \<noteq> None" by auto
    have "minValueNode l = Inr m" using Node.prems(2) Node by simp
    from Node.IH(1)[OF x(5) this] obtain ma mc ml mk mv mh mr where
      m: "m = Node ml mk mv mh mr" "minValueNode_h s (cleft c) = Some (Inr (Some ma))"
      "cells s ma = Some mc" "ckey mc = mk" "cval mc = mv" "ma \<in> Al" by blast
    have "minValueNode_h s p = minValueNode_h s (cleft c)"
      using x(1,2) nn by (subst minValueNode_h.simps) (simp add: get_def)
    then show ?thesis using m x(7) by auto
  qed
qed

lemma rep_erase:
  assumes "rep s p A t" "erase_node t key = Inr t'"
  shows "\<exists>q s' A'. erase_h s p key = Some (Inr (q, s')) \<and> rep s' q A' t' \<and> A' \<subseteq> A
           \<and> (\<forall>a. a \<notin> A \<longrightarrow> cells s' a = cells s a) \<and> fresh s' = fresh s"
  using assms
proof (induction t arbitrary: s p A key t')
  case Null
  then have "p = None" "t' = Null" "A = {}" by auto
  then show ?case by (subst erase_h.simps) simp
next
  case (Node l k v h r)
  from rep_Node_ex[OF Node.prems(1)] obtain na nc Al Ar where
    n: "p = Some na" "cells s na = Some nc" "ckey nc = k" "cval nc = v"
    "rep s (cleft nc) Al l" "rep s (cright nc) Ar r"
    "na \<notin> Al" "na \<notin> Ar" "Al \<inter> Ar = {}" "A = insert na (Al \<union> Ar)" and
    nh: "cheight nc = h" by blast
  have g: "get s p = Some (Inr (na, nc))" using n(1,2) by (simp add: get_def)
  consider (lt) "key < k" | (gt) "\<not> key < k" "k < key" | (eq) "\<not> key < k" "\<not> k < key"
    by blast
  then show ?case
  proof cases
    case lt
    from Node.prems(2) lt obtain l' where
      l': "erase_node l key = Inr l'" and b: "balance (Node l' k v h r) = Inr t'"
      by (auto split: sum.splits)
    from Node.IH(1)[OF n(5) l'] obtain lp s1 Al' where
      e: "erase_h s (cleft nc) key = Some (Inr (lp, s1))" "rep s1 lp Al' l'" "Al' \<subseteq> Al"
      "\<forall>a. a \<notin> Al \<longrightarrow> cells s1 a = cells s a" "fresh s1 = fresh s" by blast
    define s2 where "s2 = put s1 na (nc\<lparr>cleft := lp\<rparr>)"
    have c1: "cells s1 na = Some nc" using e(4) n(7) n(2) by simp
    have e2: "set_left s1 p lp = Some (Inr s2)"
      using n(1) c1 by (simp add: set_left_def get_def s2_def)
    have same2: "cells s2 a = cells s1 a" if "a \<noteq> na" for a
      using that by (simp add: s2_def cells_put)
    have nl': "na \<notin> Al'" using e(3) n(7) by auto
    have rl2: "rep s2 lp Al' l'" by (rule rep_same2[OF e(2)]) (metis same2 nl')
    have rr2: "rep s2 (cright nc) Ar r"
    proof (rule rep_same2[OF n(6)])
      fix a assume "a \<in> Ar"
      then have "a \<noteq> na" "a \<notin> Al" using n(8,9) by auto
      then show "cells s2 a = cells s a" using same2 e(4) by simp
    qed
    have c2: "cells s2 na = Some (nc\<lparr>cleft := lp\<rparr>)" by (simp add: s2_def cells_put)
    have rn2: "rep s2 p (insert na (Al' \<union> Ar)) (Node l' k v h r)" unfolding n(1)
      by (rule rep_NodeI[OF c2, where Al = Al' and Ar = Ar])
         (use n(3,4,8,9) nh nl' e(3) rl2 rr2 in auto)
    from rep_balance[OF rn2 b] obtain q s3 where
      f: "balance_h s2 p = Some (Inr (q, s3))" "rep s3 q (insert na (Al' \<union> Ar)) t'"
      "\<forall>a. a \<notin> insert na (Al' \<union> Ar) \<longrightarrow> cells s3 a = cells s2 a" "fresh s3 = fresh s2"
      by blast
    have run: "erase_h s p key = Some (Inr (q, s3))"
      using lt g e(1) e2 f(1) n(3) unfolding n(1) by (subst erase_h.simps) simp
    have sub: "insert na (Al' \<union> Ar) \<subseteq> A" using e(3) n(10) by auto
    have "cells s3 a = cells s a" if "a \<notin> A" for a
    proof -
      from that have "a \<noteq> na" "a \<notin> Al" "a \<notin> insert na (Al' \<union> Ar)" using n(10) sub by auto
      then show ?thesis using f(3) same2 e(4) by simp
    qed
    moreover have "fresh s3 = fresh s" using f(4) e(5) by (simp add: s2_def fresh_put)
    ultimately show ?thesis using run f(2) sub by blast
  next
    case gt
    from Node.prems(2) gt obtain r' where
      r': "erase_node r key = Inr r'" and b: "balance (Node l k v h r') = Inr t'"
      by (auto split: sum.splits)
    from Node.IH(2)[OF n(6) r'] obtain rp s1 Ar' where
      e: "erase_h s (cright nc) key = Some (Inr (rp, s1))" "rep s1 rp Ar' r'" "Ar' \<subseteq> Ar"
      "\<forall>a. a \<notin> Ar \<longrightarrow> cells s1 a = cells s a" "fresh s1 = fresh s" by blast
    define s2 where "s2 = put s1 na (nc\<lparr>cright := rp\<rparr>)"
    have c1: "cells s1 na = Some nc" using e(4) n(8) n(2) by simp
    have e2: "set_right s1 p rp = Some (Inr s2)"
      using n(1) c1 by (simp add: set_right_def get_def s2_def)
    have same2: "cells s2 a = cells s1 a" if "a \<noteq> na" for a
      using that by (simp add: s2_def cells_put)
    have nr': "na \<notin> Ar'" using e(3) n(8) by auto
    have rr2: "rep s2 rp Ar' r'" by (rule rep_same2[OF e(2)]) (metis same2 nr')
    have rl2: "rep s2 (cleft nc) Al l"
    proof (rule rep_same2[OF n(5)])
      fix a assume "a \<in> Al"
      then have "a \<noteq> na" "a \<notin> Ar" using n(7,9) by auto
      then show "cells s2 a = cells s a" using same2 e(4) by simp
    qed
    have c2: "cells s2 na = Some (nc\<lparr>cright := rp\<rparr>)" by (simp add: s2_def cells_put)
    have rn2: "rep s2 p (insert na (Al \<union> Ar')) (Node l k v h r')" unfolding n(1)
      by (rule rep_NodeI[OF c2, where Al = Al and Ar = Ar'])
         (use n(3,4,7,9) nh nr' e(3) rl2 rr2 in auto)
    from rep_balance[OF rn2 b] obtain q s3 where
      f: "balance_h s2 p = Some (Inr (q, s3))" "rep s3 q (insert na (Al \<union> Ar')) t'"
      "\<forall>a. a \<notin> insert na (Al \<union> Ar') \<longrightarrow> cells s3 a = cells s2 a" "fresh s3 = fresh s2"
      by blast
    have run: "erase_h s p key = Some (Inr (q, s3))"
      using gt g e(1) e2 f(1) n(3) unfolding n(1) by (subst erase_h.simps) simp
    have sub: "insert na (Al \<union> Ar') \<subseteq> A" using e(3) n(10) by auto
    have "cells s3 a = cells s a" if "a \<notin> A" for a
    proof -
      from that have "a \<noteq> na" "a \<notin> Ar" "a \<notin> insert na (Al \<union> Ar')" using n(10) sub by auto
      then show ?thesis using f(3) same2 e(4) by simp
    qed
    moreover have "fresh s3 = fresh s" using f(4) e(5) by (simp add: s2_def fresh_put)
    ultimately show ?thesis using run f(2) sub by blast
  next
    case eq
    show ?thesis
    proof (cases "l = Null")
      case True
      then have cl: "cleft nc = None" using n(5) by simp
      have t': "t' = r" using Node.prems(2) eq True by simp
      have run: "erase_h s p key = Some (Inr (cright nc, free s na))"
        using eq cl g n(3) unfolding n(1) by (subst erase_h.simps) simp
      have "rep (free s na) (cright nc) Ar r"
        by (rule rep_same2[OF n(6)]) (use n(8) in \<open>auto simp: free_def\<close>)
      moreover have "\<forall>a. a \<notin> A \<longrightarrow> cells (free s na) a = cells s a"
        using n(10) by (auto simp: free_def)
      moreover have "fresh (free s na) = fresh s" by (simp add: free_def)
      ultimately show ?thesis using run t' n(10) by blast
    next
      case lnn: False
      have cl: "cleft nc \<noteq> None" by (rule rep_ptr_nn[OF n(5) lnn])
      show ?thesis
      proof (cases "r = Null")
        case True
        then have cr: "cright nc = None" using n(6) by simp
        have t': "t' = l" using Node.prems(2) eq lnn True by simp
        have run: "erase_h s p key = Some (Inr (cleft nc, free s na))"
          using eq cl cr g n(3) unfolding n(1) by (subst erase_h.simps) simp
        have "rep (free s na) (cleft nc) Al l"
          by (rule rep_same2[OF n(5)]) (use n(7) in \<open>auto simp: free_def\<close>)
        moreover have "\<forall>a. a \<notin> A \<longrightarrow> cells (free s na) a = cells s a"
          using n(10) by (auto simp: free_def)
        moreover have "fresh (free s na) = fresh s" by (simp add: free_def)
        ultimately show ?thesis using run t' n(10) by blast
      next
        case rnn: False
        have cr: "cright nc \<noteq> None" by (rule rep_ptr_nn[OF n(6) rnn])
        from Node.prems(2) eq lnn rnn obtain ml mk mv mh mr r' where
          m: "minValueNode r = Inr (Node ml mk mv mh mr)" and
          r': "erase_node r mk = Inr r'" and b: "balance (Node l mk mv h r') = Inr t'"
          by (auto split: sum.splits node.splits)
        from rep_minValueNode[OF n(6) m] obtain ma mc where
          mm: "minValueNode_h s (cright nc) = Some (Inr (Some ma))" "cells s ma = Some mc"
          "ckey mc = mk" "cval mc = mv" "ma \<in> Ar" by auto
        define nc1 where "nc1 = nc\<lparr>ckey := mk, cval := mv\<rparr>"
        define s1 where "s1 = put s na nc1"
        have gm: "get s (Some ma) = Some (Inr (ma, mc))" using mm(2) by (simp add: get_def)
        have e1: "set_data s p (ckey mc) (cval mc) = Some (Inr s1)"
          using g mm(3,4) by (simp add: set_data_def s1_def nc1_def)
        have same1: "cells s1 a = cells s a" if "a \<noteq> na" for a
          using that by (simp add: s1_def cells_put)
        have g1: "get s1 p = Some (Inr (na, nc1))" using n(1) by (simp add: get_def s1_def cells_put)
        have rr1: "rep s1 (cright nc) Ar r" by (rule rep_same2[OF n(6)]) (metis same1 n(8))
        from Node.IH(2)[OF rr1 r'] obtain rp s2 Ar' where
          e: "erase_h s1 (cright nc) mk = Some (Inr (rp, s2))" "rep s2 rp Ar' r'" "Ar' \<subseteq> Ar"
          "\<forall>a. a \<notin> Ar \<longrightarrow> cells s2 a = cells s1 a" "fresh s2 = fresh s1" by blast
        define s3 where "s3 = put s2 na (nc1\<lparr>cright := rp\<rparr>)"
        have c2: "cells s2 na = Some nc1" using e(4) n(8) by (simp add: s1_def cells_put)
        have e3: "set_right s2 p rp = Some (Inr s3)"
          using n(1) c2 by (simp add: set_right_def get_def s3_def)
        have same3: "cells s3 a = cells s2 a" if "a \<noteq> na" for a
          using that by (simp add: s3_def cells_put)
        have nr': "na \<notin> Ar'" using e(3) n(8) by auto
        have rr3: "rep s3 rp Ar' r'" by (rule rep_same2[OF e(2)]) (metis same3 nr')
        have rl3: "rep s3 (cleft nc) Al l"
        proof (rule rep_same2[OF n(5)])
          fix a assume "a \<in> Al"
          then have "a \<noteq> na" "a \<notin> Ar" using n(7,9) by auto
          then show "cells s3 a = cells s a" using same3 e(4) same1 by simp
        qed
        have c3: "cells s3 na = Some (nc1\<lparr>cright := rp\<rparr>)" by (simp add: s3_def cells_put)
        have rn3: "rep s3 p (insert na (Al \<union> Ar')) (Node l mk mv h r')" unfolding n(1)
          by (rule rep_NodeI[OF c3, where Al = Al and Ar = Ar'])
             (use n(7,9) nh nr' e(3) rl3 rr3 in \<open>auto simp: nc1_def\<close>)
        from rep_balance[OF rn3 b] obtain q s4 where
          f: "balance_h s3 p = Some (Inr (q, s4))" "rep s4 q (insert na (Al \<union> Ar')) t'"
          "\<forall>a. a \<notin> insert na (Al \<union> Ar') \<longrightarrow> cells s4 a = cells s3 a" "fresh s4 = fresh s3"
          by blast
        from cl cr obtain la ra where lr: "cleft nc = Some la" "cright nc = Some ra" by auto
        have run: "erase_h s p key = Some (Inr (q, s4))"
          using eq g mm(1) gm e1 g1 e(1) e3 f(1) mm(3) n(3) unfolding n(1)
          by (subst erase_h.simps) (simp add: nc1_def lr)
        have sub: "insert na (Al \<union> Ar') \<subseteq> A" using e(3) n(10) by auto
        have "cells s4 a = cells s a" if "a \<notin> A" for a
        proof -
          from that have "a \<noteq> na" "a \<notin> Ar" "a \<notin> insert na (Al \<union> Ar')"
            using n(10) sub by auto
          then show ?thesis using f(3) same3 e(4) same1 by simp
        qed
        moreover have "fresh s4 = fresh s"
          using f(4) e(5) by (simp add: s3_def s1_def fresh_put)
        ultimately show ?thesis using run f(2) sub by blast
      qed
    qed
  qed
qed

lemma rep_clone:
  assumes "wfs s" "rep s p A t"
  shows "\<exists>q s' A'. clone_h s p = Some (Inr (q, s')) \<and> rep s' q A' (clone t)
           \<and> (\<forall>a \<in> A'. fresh s \<le> a \<and> a < fresh s')
           \<and> (\<forall>a. a < fresh s \<longrightarrow> cells s' a = cells s a)
           \<and> wfs s' \<and> fresh s \<le> fresh s'"
  using assms
proof (induction t arbitrary: s p A)
  case Null
  then have "p = None" by simp
  then have "clone_h s p = Some (Inr (None, s))" by (subst clone_h.simps) simp
  then show ?case using Null.prems(1) by (intro exI[of _ None] exI[of _ s] exI[of _ "{}"]) simp
next
  case (Node l k v h r)
  from rep_Node_ex[OF Node.prems(2)] obtain a c Al Ar where
    x: "p = Some a" "cells s a = Some c" "ckey c = k" "cval c = v"
    "rep s (cleft c) Al l" "rep s (cright c) Ar r" "A = insert a (Al \<union> Ar)" by blast
  have lt: "b < fresh s" if "b \<in> A" for b
    using rep_lt[OF Node.prems(1) Node.prems(2) that] .
  have a_lt: "a < fresh s" using lt x(7) by simp
  define na where "na = fresh s"
  define s1 where "s1 = s\<lparr>cells := (cells s)(na \<mapsto> newCell k v None), fresh := na + 1\<rparr>"
  have al: "alloc s (newCell (ckey c) (cval c) None) = (na, s1)"
    by (simp add: alloc_def s1_def na_def x(3,4))
  have same1: "cells s1 b = cells s b" if "b < fresh s" for b
    using that by (simp add: s1_def na_def)
  have w1: "wfs s1" using Node.prems(1) by (auto simp: wfs_def s1_def na_def)
  have f1: "fresh s1 = na + 1" by (simp add: s1_def)
  have g1: "get s1 p = Some (Inr (a, c))" using x(1,2) a_lt same1 by (simp add: get_def)
  have rl1: "rep s1 (cleft c) Al l"
    by (rule rep_same2[OF x(5)]) (use lt x(7) same1 in auto)
  from Node.IH(1)[OF w1 rl1] obtain lq s2 Al' where
    l: "clone_h s1 (cleft c) = Some (Inr (lq, s2))" "rep s2 lq Al' (clone l)"
    "\<forall>b \<in> Al'. fresh s1 \<le> b \<and> b < fresh s2"
    "\<forall>b. b < fresh s1 \<longrightarrow> cells s2 b = cells s1 b" "wfs s2" "fresh s1 \<le> fresh s2" by blast
  define c2 where "c2 = (newCell k v None :: ('a, 'b) cell)\<lparr>cleft := lq\<rparr>"
  define s3 where "s3 = put s2 na c2"
  have cn2: "cells s2 na = Some (newCell k v None)" using l(4) f1 by (simp add: s1_def)
  have e3: "set_left s2 (Some na) lq = Some (Inr s3)"
    using cn2 by (simp add: set_left_def get_def s3_def c2_def)
  have same3: "cells s3 b = cells s2 b" if "b \<noteq> na" for b
    using that by (simp add: s3_def cells_put)
  have f3: "fresh s3 = fresh s2" by (simp add: s3_def fresh_put)
  have w3: "wfs s3" using l(5,6) f1 by (auto simp: wfs_def s3_def cells_put fresh_put)
  have old3: "cells s3 b = cells s b" if "b < fresh s" for b
  proof -
    from that have "b \<noteq> na" "b < fresh s1" by (auto simp: na_def f1)
    then show ?thesis using same3 l(4) same1 that by simp
  qed
  have g3: "get s3 p = Some (Inr (a, c))" using x(1,2) a_lt old3 by (simp add: get_def)
  have rr3: "rep s3 (cright c) Ar r"
    by (rule rep_same2[OF x(6)]) (use lt x(7) old3 in auto)
  from Node.IH(2)[OF w3 rr3] obtain rq s4 Ar' where
    r: "clone_h s3 (cright c) = Some (Inr (rq, s4))" "rep s4 rq Ar' (clone r)"
    "\<forall>b \<in> Ar'. fresh s3 \<le> b \<and> b < fresh s4"
    "\<forall>b. b < fresh s3 \<longrightarrow> cells s4 b = cells s3 b" "wfs s4" "fresh s3 \<le> fresh s4" by blast
  define c4 where "c4 = c2\<lparr>cright := rq\<rparr>"
  define s5 where "s5 = put s4 na c4"
  have na3: "na < fresh s3" using f3 l(6) f1 by simp
  have cn4: "cells s4 na = Some c2" using r(4) na3 by (simp add: s3_def cells_put)
  have e5: "set_right s4 (Some na) rq = Some (Inr s5)"
    using cn4 by (simp add: set_right_def get_def s5_def c4_def)
  have same5: "cells s5 b = cells s4 b" if "b \<noteq> na" for b
    using that by (simp add: s5_def cells_put)
  have run: "clone_h s p = Some (Inr (Some na, s5))"
    using x(1,2) al g1 l(1) e3 g3 r(1) e5 unfolding x(1)
    by (subst clone_h.simps) (simp add: get_def)
  have nl: "na \<notin> Al'" using l(3) f1 by auto
  have nr: "na \<notin> Ar'" using r(3) na3 by auto
  have dj: "Al' \<inter> Ar' = {}" using l(3) r(3) f3 by fastforce
  have rl5: "rep s5 lq Al' (clone l)"
  proof (rule rep_same2[OF l(2)])
    fix b assume b: "b \<in> Al'"
    then have "b \<noteq> na" "b < fresh s3" using nl l(3) f3 by auto
    then show "cells s5 b = cells s2 b" using same5 r(4) same3 by simp
  qed
  have rr5: "rep s5 rq Ar' (clone r)"
    by (rule rep_same2[OF r(2)]) (metis same5 nr)
  have c5: "cells s5 na = Some c4" by (simp add: s5_def cells_put)
  have rn: "rep s5 (Some na) (insert na (Al' \<union> Ar')) (clone (Node l k v h r))"
    unfolding clone.simps
    by (rule rep_NodeI[OF c5, where Al = Al' and Ar = Ar'])
       (use rl5 rr5 nl nr dj in \<open>simp_all add: c4_def c2_def newCell_def\<close>)
  have f5: "fresh s5 = fresh s4" by (simp add: s5_def fresh_put)
  have rng: "\<forall>b \<in> insert na (Al' \<union> Ar'). fresh s \<le> b \<and> b < fresh s5"
    using l(3,6) r(3,6) f1 f3 f5 na3 by (fastforce simp: na_def)
  have old: "\<forall>b. b < fresh s \<longrightarrow> cells s5 b = cells s b"
  proof (intro allI impI)
    fix b assume b: "b < fresh s"
    then have "b \<noteq> na" "b < fresh s3" using na3 by (auto simp: na_def)
    then show "cells s5 b = cells s b" using same5 r(4) old3[OF b] by simp
  qed
  have w5: "wfs s5" using r(5) na3 r(6) by (auto simp: wfs_def s5_def cells_put fresh_put)
  have "fresh s \<le> fresh s5" using f5 r(6) f3 l(6) f1 by (simp add: na_def)
  with run rn rng old w5 show ?case by blast
qed

lemma erase_node_hpos:
  assumes "hpos t"
  shows "\<exists>n. erase_node t key = Inr n \<and> hpos n"
  using assms
proof (induction t arbitrary: key)
  case Null
  then show ?case by simp
next
  case (Node l k v h r)
  then have hp: "hpos l" "hpos r" by auto
  consider (lt) "key < k" | (gt) "\<not> key < k" "k < key" | (eq) "\<not> key < k" "\<not> k < key"
    by blast
  then show ?case
  proof cases
    case lt
    from Node.IH(1)[OF hp(1), of key] obtain l' where l': "erase_node l key = Inr l'" "hpos l'"
      by blast
    from balance_ok[OF l'(2) hp(2), of k v h] l'(1) lt show ?thesis by auto
  next
    case gt
    from Node.IH(2)[OF hp(2), of key] obtain r' where r': "erase_node r key = Inr r'" "hpos r'"
      by blast
    from balance_ok[OF hp(1) r'(2), of k v h] r'(1) gt show ?thesis by auto
  next
    case eq
    show ?thesis
    proof (cases "l = Null \<or> r = Null")
      case True
      then show ?thesis using eq hp by auto
    next
      case False
      then have "r \<noteq> Null" by simp
      from minValueNode_ok[OF this] obtain mk mv mh mr where
        m: "minValueNode r = Inr (Node Null mk mv mh mr)" by blast
      from Node.IH(2)[OF hp(2), of mk] obtain r' where r': "erase_node r mk = Inr r'" "hpos r'"
        by blast
      from balance_ok[OF hp(1) r'(2), of mk mv h] r'(1) m eq False show ?thesis by auto
    qed
  qed
qed

lemma get_agree: "agree n s s' \<Longrightarrow> below n p \<Longrightarrow> get s' p = get s p"
  by (cases p) (auto simp: get_def agree_def below_def)

lemma lock_agree: "agree n s s' \<Longrightarrow> below n p \<Longrightarrow> lock s' p = lock s p"
  by (cases p) (auto simp: lock_def agree_def below_def)

lemma get_below:
  assumes "ptrs_below n s" "below n p" "get s p = Some (Inr (a, c))"
  shows "p = Some a \<and> a < n \<and> below n (cleft c) \<and> below n (cright c) \<and> below n (cparent c)"
proof -
  from assms(3) have pa: "p = Some a" "cells s a = Some c"
    by (auto simp: get_def split: option.splits)
  with assms(2) have "a < n" by (simp add: below_def)
  with assms(1) pa show ?thesis by (auto simp: ptrs_below_def)
qed

lemma get_cases:
  obtains (err) e where "get s p = Some (Inl e)" | (ok) a c where "get s p = Some (Inr (a, c))"
proof (cases p)
  case None
  then have "get s p = Some (Inl NullDeref)" by (simp add: get_def)
  then show ?thesis by (rule err)
next
  case (Some a)
  show ?thesis
  proof (cases "cells s a")
    case None
    with Some have "get s p = Some (Inl Dangling)" by (simp add: get_def)
    then show ?thesis by (rule err)
  next
    case (Some c)
    with \<open>p = Some a\<close> have "get s p = Some (Inr (a, c))" by (simp add: get_def)
    then show ?thesis by (rule ok)
  qed
qed

lemma below_lock: "below n p \<Longrightarrow> below n (lock s p)"
  by (cases p) (auto simp: lock_def below_def)

lemma minValueNode_h_agree:
  assumes "minValueNode_h s p = Some y"
  shows "agree n s s' \<longrightarrow> ptrs_below n s \<longrightarrow> below n p
         \<longrightarrow> minValueNode_h s' p = Some y \<and> (\<forall>q. y = Inr q \<longrightarrow> below n q)"
  using assms
proof (induction s p y rule: minValueNode_h.raw_induct[rotated 1, consumes 1, case_names step])
  case (step f s node y)
  note IH = step(1) and eq = step(2)
  show ?case
  proof (intro impI)
    assume ag: "agree n s s'" and pb: "ptrs_below n s" and bl: "below n node"
    have g: "get s' node = get s node" by (rule get_agree[OF ag bl])
    show "minValueNode_h s' node = Some y \<and> (\<forall>q. y = Inr q \<longrightarrow> below n q)"
    proof (cases rule: get_cases[of s node])
      case (err e)
      with eq have "y = Inl e" by simp
      then show ?thesis using err g by (subst minValueNode_h.simps) simp
    next
      case (ok a c)
      from get_below[OF pb bl ok] have b: "below n (cleft c)" by simp
      show ?thesis
      proof (cases "cleft c = None")
        case True
        with eq ok have "y = Inr node" by simp
        then show ?thesis using ok g True bl by (subst minValueNode_h.simps) simp
      next
        case False
        with eq ok have "f s (cleft c) = Some y" by simp
        from IH[OF this, rule_format, OF ag pb b]
        show ?thesis using ok g False by (subst minValueNode_h.simps) simp
      qed
    qed
  qed
qed

lemma walk_up_agree:
  assumes "walk_up s p = Some y"
  shows "agree n s s' \<longrightarrow> ptrs_below n s \<longrightarrow> below n p
         \<longrightarrow> walk_up s' p = Some y \<and> (\<forall>q. y = Inr q \<longrightarrow> below n q)"
  using assms
proof (induction s p y rule: walk_up.raw_induct[rotated 1, consumes 1, case_names step])
  case (step f s cur y)
  note IH = step(1) and eq = step(2)
  show ?case
  proof (intro impI)
    assume ag: "agree n s s'" and pb: "ptrs_below n s" and bl: "below n cur"
    have g: "get s' cur = get s cur" by (rule get_agree[OF ag bl])
    show "walk_up s' cur = Some y \<and> (\<forall>q. y = Inr q \<longrightarrow> below n q)"
    proof (cases rule: get_cases[of s cur])
      case (err e)
      with eq have "y = Inl e" by simp
      then show ?thesis using err g by (subst walk_up.simps) simp
    next
      case (ok a c)
      note gc = ok
      from get_below[OF pb bl gc] have b: "below n (cparent c)" by simp
      have lk: "lock s' (cparent c) = lock s (cparent c)" by (rule lock_agree[OF ag b])
      have bk: "below n (lock s (cparent c))" by (rule below_lock[OF b])
      show ?thesis
      proof (cases "lock s (cparent c)")
        case None
        with eq gc have "y = Inr None" by simp
        then show ?thesis using gc g lk None
          by (subst walk_up.simps) (simp add: below_def)
      next
        case (Some pa)
        with bk have bpa: "below n (Some pa)" by simp
        have gp: "get s' (Some pa) = get s (Some pa)" by (rule get_agree[OF ag bpa])
        show ?thesis
        proof (cases rule: get_cases[of s "Some pa"])
          case (err e)
          with eq gc Some have "y = Inl e" by simp
          then show ?thesis using err gc g lk Some gp by (subst walk_up.simps) simp
        next
          case (ok pa' pc)
          note gpa = ok
          show ?thesis
          proof (cases "cleft pc = cur")
            case True
            with eq gc Some gpa have "y = Inr (Some pa)" by simp
            then show ?thesis using gc g lk Some gp gpa True bpa
              by (subst walk_up.simps) simp
          next
            case False
            with eq gc Some gpa have "f s (Some pa) = Some y" by simp
            from IH[OF this, rule_format, OF ag pb bpa]
            show ?thesis using gc g lk Some gp gpa False
              by (subst walk_up.simps) simp
          qed
        qed
      qed
    qed
  qed
qed

lemma advance_agree:
  assumes "advance s p = Some y" "agree n s s'" "ptrs_below n s" "below n p"
  shows "advance s' p = Some y \<and> (\<forall>q. y = Inr q \<longrightarrow> below n q)"
proof -
  have g: "get s' p = get s p" by (rule get_agree[OF assms(2,4)])
  show ?thesis
  proof (cases rule: get_cases[of s p])
    case (err e)
    with assms(1) have "y = Inl e" by (simp add: advance_def)
    then show ?thesis using err g by (simp add: advance_def)
  next
    case (ok a c)
    from get_below[OF assms(3,4) ok] have b: "below n (cright c)" by simp
    show ?thesis
    proof (cases "cright c = None")
      case True
      with assms(1) ok have "walk_up s p = Some y" by (simp add: advance_def)
      from walk_up_agree[OF this, rule_format, OF assms(2,3,4)] show ?thesis
        using ok g True by (simp add: advance_def)
    next
      case False
      with assms(1) ok have "minValueNode_h s (cright c) = Some y" by (simp add: advance_def)
      from minValueNode_h_agree[OF this, rule_format, OF assms(2,3) b] show ?thesis
        using ok g False by (simp add: advance_def)
    qed
  qed
qed

lemma traverse_from_agree:
  assumes "traverse_from s p = Some y"
  shows "agree n s s' \<longrightarrow> ptrs_below n s \<longrightarrow> below n p \<longrightarrow> traverse_from s' p = Some y"
  using assms
proof (induction s p y rule: traverse_from.raw_induct[rotated 1, consumes 1, case_names step])
  case (step f s it y)
  note IH = step(1) and eq = step(2)
  show ?case
  proof (intro impI)
    assume ag: "agree n s s'" and pb: "ptrs_below n s" and bl: "below n it"
    show "traverse_from s' it = Some y"
    proof (cases it)
      case None
      with eq have "y = Inr []" by simp
      then show ?thesis using None by (subst traverse_from.simps) simp
    next
      case (Some a0)
      have g: "get s' it = get s it" by (rule get_agree[OF ag bl])
      show ?thesis
      proof (cases rule: get_cases[of s it])
        case (err e)
        with eq Some have "y = Inl e" by simp
        then show ?thesis using err g Some by (subst traverse_from.simps) simp
      next
        case (ok a c)
        note gi = ok
        show ?thesis
        proof (cases "advance s it")
          case None
          with eq Some gi show ?thesis by simp
        next
          case Some2: (Some w)
          from advance_agree[OF Some2 ag pb bl] have
            adv: "advance s' it = Some w" and bw: "\<forall>q. w = Inr q \<longrightarrow> below n q" by simp_all
          show ?thesis
          proof (cases w)
            case (Inl e)
            with eq Some gi Some2 have "y = Inl e" by simp
            then show ?thesis using gi g Some adv Inl by (subst traverse_from.simps) simp
          next
            case (Inr nxt)
            with bw have bn: "below n nxt" by simp
            show ?thesis
            proof (cases "f s nxt")
              case None
              with eq Some gi Some2 Inr show ?thesis by simp
            next
              case Some3: (Some z)
              from IH[OF Some3, rule_format, OF ag pb bn]
              have t: "traverse_from s' nxt = Some z" .
              from eq Some gi Some2 Inr Some3
              have "y = (case z of Inl e \<Rightarrow> Inl e | Inr rest \<Rightarrow> Inr ((ckey c, cval c) # rest))"
                by (cases z) auto
              then show ?thesis using gi g Some adv Inr t
                by (subst traverse_from.simps) (cases z; simp)
            qed
          qed
        qed
      qed
    qed
  qed
qed

lemma traversal_agree_imp:
  assumes "traversal s c = Some y" "agree n s s'" "ptrs_below n s" "below n (hroot c)"
  shows "traversal s' c = Some y"
proof (cases "begin_h s c")
  case None
  with assms(1) show ?thesis by (simp add: traversal_def)
next
  case (Some w)
  have b: "begin_h s' c = Some w \<and> (\<forall>q. w = Inr q \<longrightarrow> below n q)"
  proof (cases "hroot c = None")
    case True
    with Some show ?thesis by (auto simp: begin_h_def below_def)
  next
    case False
    with Some have "minValueNode_h s (hroot c) = Some w" by (simp add: begin_h_def)
    from minValueNode_h_agree[OF this, rule_format, OF assms(2,3,4)] False show ?thesis
      by (cases "hroot c") (simp_all add: begin_h_def)
  qed
  show ?thesis
  proof (cases w)
    case (Inl e)
    with assms(1) Some b show ?thesis by (simp add: traversal_def)
  next
    case (Inr it)
    with assms(1) Some have "traverse_from s it = Some y" by (simp add: traversal_def)
    from traverse_from_agree[OF this, rule_format, OF assms(2,3)] b Inr show ?thesis
      by (simp add: traversal_def)
  qed
qed

lemma traversal_agree:
  assumes "agree n s s'" "ptrs_below n s" "below n (hroot c)"
  shows "traversal s' c = traversal s c"
proof -
  have ag': "agree n s' s" using assms(1) by (simp add: agree_def)
  have pb': "ptrs_below n s'" using assms(1,2) by (simp add: agree_def ptrs_below_def)
  show ?thesis
  proof (cases "traversal s c")
    case None
    show ?thesis
    proof (cases "traversal s' c")
      case None2: None
      with None show ?thesis by simp
    next
      case (Some y)
      from traversal_agree_imp[OF Some ag' pb' assms(3)] None show ?thesis by simp
    qed
  next
    case (Some y)
    from traversal_agree_imp[OF Some assms] Some show ?thesis by simp
  qed
qed

lemma rep_below:
  assumes "wfs s" "rep s p A t"
  shows "below (fresh s) p"
proof (cases t)
  case Null
  with assms(2) show ?thesis by (simp add: below_def)
next
  case (Node l k v h r)
  with assms(2) have "rep s p A (Node l k v h r)" by simp
  from rep_Node_ex[OF this] obtain a where a: "p = Some a" "a \<in> A" by blast
  from rep_lt[OF assms a(2)] a(1) show ?thesis by (simp add: below_def)
qed

lemma equalRange_first_loop_nonempty:
  fixes t :: "('k::linorder, 'v) node"
  assumes "rep s (hroot c) A t" "t \<noteq> Null"
  shows "\<exists>m. minValueNode_h s (hroot c) = Some (Inr (Some m)) \<and> m \<in> A"
proof -
  from minValueNode_ok[OF assms(2)] obtain mk mv mh mr where
    "minValueNode t = Inr (Node Null mk mv mh mr)" by blast
  from rep_minValueNode[OF assms(1) this] show ?thesis by blast
qed

subsection \<open>\<open>insert\<close>, and the public member functions, on a store that holds a tree\<close>

text \<open>
  \<open>push\<close>, \<open>drop\<close> and the copy constructor on the store do what they do on tree values: the
  tree values of the first part are what the store holds.
\<close>

lemma rep_insert:
  assumes "wfs s" "rep s p A t" "insert_node t key val cnt = Inr (t', cnt')"
  shows "\<exists>q s' A'. insert_h s p key val par cnt = Some (Inr (q, cnt', s')) \<and> rep s' q A' t'
           \<and> A \<subseteq> A' \<and> A' \<subseteq> insert (fresh s) A
           \<and> (\<forall>a. a \<notin> insert (fresh s) A \<longrightarrow> cells s' a = cells s a)
           \<and> wfs s' \<and> fresh s \<le> fresh s' \<and> fresh s' \<le> fresh s + 1"
  using assms
proof (induction t arbitrary: s p A t' cnt' par)
  case Null
  then have p: "p = None" "A = {}" and t': "t' = newNode key val" "cnt' = cnt + 1" by auto
  define s1 where
    "s1 = s\<lparr>cells := (cells s)(fresh s \<mapsto> newCell key val par), fresh := fresh s + 1\<rparr>"
  have run: "insert_h s p key val par cnt = Some (Inr (Some (fresh s), cnt', s1))"
    unfolding p(1) by (subst insert_h.simps) (simp add: alloc_def s1_def t')
  have "rep s1 (Some (fresh s)) {fresh s} t'"
    by (simp add: t' newNode_def s1_def newCell_def)
  moreover have "wfs s1" using Null.prems(1) by (auto simp: wfs_def s1_def)
  moreover have "\<forall>a. a \<notin> insert (fresh s) A \<longrightarrow> cells s1 a = cells s a"
    by (simp add: s1_def)
  moreover have "fresh s1 = fresh s + 1" by (simp add: s1_def)
  ultimately show ?case using run p(2) by (intro exI[of _ "Some (fresh s)"] exI[of _ s1] exI[of _ "{fresh s}"]) simp
next
  case (Node l k v h r)
  note w = Node.prems(1)
  from rep_Node_ex[OF Node.prems(2)] obtain na nc Al Ar where
    n: "p = Some na" "cells s na = Some nc" "ckey nc = k" "cval nc = v"
    "rep s (cleft nc) Al l" "rep s (cright nc) Ar r"
    "na \<notin> Al" "na \<notin> Ar" "Al \<inter> Ar = {}" "A = insert na (Al \<union> Ar)" and
    nh: "cheight nc = h" by blast
  have g: "get s p = Some (Inr (na, nc))" using n(1,2) by (simp add: get_def)
  have below: "a < fresh s" if "a \<in> A" for a using rep_lt[OF w Node.prems(2) that] .
  have nf: "na \<noteq> fresh s" "fresh s \<notin> Al" "fresh s \<notin> Ar" using below n(10) by fastforce+
  consider (lt) "key < k" | (gt) "\<not> key < k" "k < key" | (eq) "\<not> key < k" "\<not> k < key"
    by blast
  then show ?case
  proof cases
    case lt
    from Node.prems(3) lt obtain l' where
      l': "insert_node l key val cnt = Inr (l', cnt')" and b: "balance (Node l' k v h r) = Inr t'"
      by (auto split: sum.splits)
    from Node.IH(1)[OF w n(5) l', of p] obtain lp s1 Al' where
      e: "insert_h s (cleft nc) key val p cnt = Some (Inr (lp, cnt', s1))" "rep s1 lp Al' l'"
      "Al \<subseteq> Al'" "Al' \<subseteq> insert (fresh s) Al"
      "\<forall>a. a \<notin> insert (fresh s) Al \<longrightarrow> cells s1 a = cells s a"
      "wfs s1" "fresh s \<le> fresh s1" "fresh s1 \<le> fresh s + 1" by blast
    define s2 where "s2 = put s1 na (nc\<lparr>cleft := lp\<rparr>)"
    have c1: "cells s1 na = Some nc" using e(5) n(7) nf(1) n(2) by simp
    have e2: "set_left s1 p lp = Some (Inr s2)"
      using n(1) c1 by (simp add: set_left_def get_def s2_def)
    have same2: "cells s2 a = cells s1 a" if "a \<noteq> na" for a
      using that by (simp add: s2_def cells_put)
    have nl': "na \<notin> Al'" using e(4) n(7) nf(1) by auto
    have rl2: "rep s2 lp Al' l'" by (rule rep_same2[OF e(2)]) (metis same2 nl')
    have rr2: "rep s2 (cright nc) Ar r"
    proof (rule rep_same2[OF n(6)])
      fix a assume "a \<in> Ar"
      then have "a \<noteq> na" "a \<notin> insert (fresh s) Al" using n(8,9) nf(3) by auto
      then show "cells s2 a = cells s a" using same2 e(5) by simp
    qed
    have dj: "Al' \<inter> Ar = {}" using e(4) n(9) nf(3) by auto
    have c2: "cells s2 na = Some (nc\<lparr>cleft := lp\<rparr>)" by (simp add: s2_def cells_put)
    have rn2: "rep s2 p (insert na (Al' \<union> Ar)) (Node l' k v h r)" unfolding n(1)
      by (rule rep_NodeI[OF c2, where Al = Al' and Ar = Ar])
         (use n(3,4,8) nh nl' dj rl2 rr2 in auto)
    from rep_balance[OF rn2 b] obtain q s3 where
      f: "balance_h s2 p = Some (Inr (q, s3))" "rep s3 q (insert na (Al' \<union> Ar)) t'"
      "\<forall>a. a \<notin> insert na (Al' \<union> Ar) \<longrightarrow> cells s3 a = cells s2 a" "fresh s3 = fresh s2"
      by blast
    have run: "insert_h s p key val par cnt = Some (Inr (q, cnt', s3))"
      using lt g e(1) e2 f(1) n(3) unfolding n(1) by (subst insert_h.simps) simp
    have sub: "A \<subseteq> insert na (Al' \<union> Ar)" "insert na (Al' \<union> Ar) \<subseteq> insert (fresh s) A"
      using e(3,4) n(10) by auto
    have fr: "\<forall>a. a \<notin> insert (fresh s) A \<longrightarrow> cells s3 a = cells s a"
    proof (intro allI impI)
      fix a assume "a \<notin> insert (fresh s) A"
      then have "a \<noteq> na" "a \<notin> insert (fresh s) Al" "a \<notin> insert na (Al' \<union> Ar)"
        using n(10) sub by auto
      then show "cells s3 a = cells s a" using f(3) same2 e(5) by simp
    qed
    have f3: "fresh s3 = fresh s1" using f(4) by (simp add: s2_def fresh_put)
    have w3: "wfs s3" unfolding wfs_def
    proof (intro allI impI)
      fix a assume a: "fresh s3 \<le> a"
      then have "cells s1 a = None" using e(6) f3 by (simp add: wfs_def)
      moreover have "a \<notin> insert na (Al' \<union> Ar)"
        using rep_lt[OF e(6) e(2)] below n(10) a f3 e(7) nl' by fastforce
      moreover have "a \<noteq> na" using below[of na] n(10) a f3 e(7) by auto
      ultimately show "cells s3 a = None" using f(3) same2 by simp
    qed
    show ?thesis using run f(2) sub fr w3 f3 e(7,8) by auto
  next
    case gt
    from Node.prems(3) gt obtain r' where
      r': "insert_node r key val cnt = Inr (r', cnt')" and b: "balance (Node l k v h r') = Inr t'"
      by (auto split: sum.splits)
    from Node.IH(2)[OF w n(6) r', of p] obtain rp s1 Ar' where
      e: "insert_h s (cright nc) key val p cnt = Some (Inr (rp, cnt', s1))" "rep s1 rp Ar' r'"
      "Ar \<subseteq> Ar'" "Ar' \<subseteq> insert (fresh s) Ar"
      "\<forall>a. a \<notin> insert (fresh s) Ar \<longrightarrow> cells s1 a = cells s a"
      "wfs s1" "fresh s \<le> fresh s1" "fresh s1 \<le> fresh s + 1" by blast
    define s2 where "s2 = put s1 na (nc\<lparr>cright := rp\<rparr>)"
    have c1: "cells s1 na = Some nc" using e(5) n(8) nf(1) n(2) by simp
    have e2: "set_right s1 p rp = Some (Inr s2)"
      using n(1) c1 by (simp add: set_right_def get_def s2_def)
    have same2: "cells s2 a = cells s1 a" if "a \<noteq> na" for a
      using that by (simp add: s2_def cells_put)
    have nr': "na \<notin> Ar'" using e(4) n(8) nf(1) by auto
    have rr2: "rep s2 rp Ar' r'" by (rule rep_same2[OF e(2)]) (metis same2 nr')
    have rl2: "rep s2 (cleft nc) Al l"
    proof (rule rep_same2[OF n(5)])
      fix a assume "a \<in> Al"
      then have "a \<noteq> na" "a \<notin> insert (fresh s) Ar" using n(7,9) nf(2) by auto
      then show "cells s2 a = cells s a" using same2 e(5) by simp
    qed
    have dj: "Al \<inter> Ar' = {}" using e(4) n(9) nf(2) by auto
    have c2: "cells s2 na = Some (nc\<lparr>cright := rp\<rparr>)" by (simp add: s2_def cells_put)
    have rn2: "rep s2 p (insert na (Al \<union> Ar')) (Node l k v h r')" unfolding n(1)
      by (rule rep_NodeI[OF c2, where Al = Al and Ar = Ar'])
         (use n(3,4,7) nh nr' dj rl2 rr2 in auto)
    from rep_balance[OF rn2 b] obtain q s3 where
      f: "balance_h s2 p = Some (Inr (q, s3))" "rep s3 q (insert na (Al \<union> Ar')) t'"
      "\<forall>a. a \<notin> insert na (Al \<union> Ar') \<longrightarrow> cells s3 a = cells s2 a" "fresh s3 = fresh s2"
      by blast
    have run: "insert_h s p key val par cnt = Some (Inr (q, cnt', s3))"
      using gt g e(1) e2 f(1) n(3) unfolding n(1) by (subst insert_h.simps) simp
    have sub: "A \<subseteq> insert na (Al \<union> Ar')" "insert na (Al \<union> Ar') \<subseteq> insert (fresh s) A"
      using e(3,4) n(10) by auto
    have fr: "\<forall>a. a \<notin> insert (fresh s) A \<longrightarrow> cells s3 a = cells s a"
    proof (intro allI impI)
      fix a assume "a \<notin> insert (fresh s) A"
      then have "a \<noteq> na" "a \<notin> insert (fresh s) Ar" "a \<notin> insert na (Al \<union> Ar')"
        using n(10) sub by auto
      then show "cells s3 a = cells s a" using f(3) same2 e(5) by simp
    qed
    have f3: "fresh s3 = fresh s1" using f(4) by (simp add: s2_def fresh_put)
    have w3: "wfs s3" unfolding wfs_def
    proof (intro allI impI)
      fix a assume a: "fresh s3 \<le> a"
      then have "cells s1 a = None" using e(6) f3 by (simp add: wfs_def)
      moreover have "a \<notin> insert na (Al \<union> Ar')"
        using rep_lt[OF e(6) e(2)] below n(10) a f3 e(7) nr' by fastforce
      moreover have "a \<noteq> na" using below[of na] n(10) a f3 e(7) by auto
      ultimately show "cells s3 a = None" using f(3) same2 by simp
    qed
    show ?thesis using run f(2) sub fr w3 f3 e(7,8) by auto
  next
    case eq
    from Node.prems(3) eq have b: "balance (Node l k val h r) = Inr t'" and c: "cnt' = cnt"
      by (auto split: sum.splits)
    define s1 where "s1 = put s na (nc\<lparr>ckey := k, cval := val\<rparr>)"
    have e1: "set_data s p (ckey nc) val = Some (Inr s1)"
      using g n(3) by (simp add: set_data_def s1_def)
    have same1: "cells s1 a = cells s a" if "a \<noteq> na" for a
      using that by (simp add: s1_def cells_put)
    have rl1: "rep s1 (cleft nc) Al l" by (rule rep_same2[OF n(5)]) (metis same1 n(7))
    have rr1: "rep s1 (cright nc) Ar r" by (rule rep_same2[OF n(6)]) (metis same1 n(8))
    have c1: "cells s1 na = Some (nc\<lparr>ckey := k, cval := val\<rparr>)" by (simp add: s1_def cells_put)
    have rn1: "rep s1 p A (Node l k val h r)" unfolding n(1)
      by (rule rep_NodeI[OF c1, where Al = Al and Ar = Ar])
         (use n(7,8,9,10) nh rl1 rr1 in auto)
    from rep_balance[OF rn1 b] obtain q s3 where
      f: "balance_h s1 p = Some (Inr (q, s3))" "rep s3 q A t'"
      "\<forall>a. a \<notin> A \<longrightarrow> cells s3 a = cells s1 a" "fresh s3 = fresh s1"
      by blast
    have run: "insert_h s p key val par cnt = Some (Inr (q, cnt', s3))"
      using eq g e1 f(1) n(3) c unfolding n(1) by (subst insert_h.simps) simp
    have fr: "\<forall>a. a \<notin> insert (fresh s) A \<longrightarrow> cells s3 a = cells s a"
      using f(3) same1 n(10) by auto
    have f3: "fresh s3 = fresh s" using f(4) by (simp add: s1_def fresh_put)
    have w3: "wfs s3" unfolding wfs_def
    proof (intro allI impI)
      fix a assume a: "fresh s3 \<le> a"
      then have "cells s a = None" using w f3 by (simp add: wfs_def)
      moreover have "a \<notin> A" using below a f3 by fastforce
      ultimately show "cells s3 a = None" using f(3) same1 n(10) by auto
    qed
    show ?thesis using run f(2) fr w3 f3 by auto
  qed
qed

lemma push_h_refines:
  assumes "wfs s" "rep s (hroot ch) A (root c)" "hcount ch = nodeCount c"
    "push c key val = Inr c'"
  shows "\<exists>ch' s' A'. push_h s ch key val = Some (Inr (ch', s'))
           \<and> rep s' (hroot ch') A' (root c') \<and> hcount ch' = nodeCount c' \<and> wfs s'
           \<and> (\<forall>a. a \<notin> insert (fresh s) A \<longrightarrow> cells s' a = cells s a)"
proof -
  from assms(4) obtain n cnt where
    i: "insert_node (root c) key val (nodeCount c) = Inr (n, cnt)"
    and c': "c' = \<lparr>root = n, nodeCount = cnt\<rparr>"
    by (auto simp: push_def split: sum.splits)
  from rep_insert[OF assms(1,2) i, of None] obtain q s' A' where
    r: "insert_h s (hroot ch) key val None (nodeCount c) = Some (Inr (q, cnt, s'))"
    "rep s' q A' n" "wfs s'"
    "\<forall>a. a \<notin> insert (fresh s) A \<longrightarrow> cells s' a = cells s a" by blast
  have "push_h s ch key val = Some (Inr (\<lparr>hroot = q, hcount = cnt\<rparr>, s'))"
    using r(1) assms(3) by (simp add: push_h_def)
  then show ?thesis using r(2,3,4) c' by auto
qed

lemma drop_h_refines:
  assumes "wfs s" "rep s (hroot ch) A (root c)" "hcount ch = nodeCount c"
    "drop_key c key = Inr c'"
  shows "\<exists>ch' s' A'. drop_h s ch key = Some (Inr (ch', s'))
           \<and> rep s' (hroot ch') A' (root c') \<and> hcount ch' = nodeCount c' \<and> wfs s'
           \<and> A' \<subseteq> A \<and> (\<forall>a. a \<notin> A \<longrightarrow> cells s' a = cells s a)"
proof -
  from assms(4) obtain n where
    e: "erase_node (root c) key = Inr n" and c': "c' = c\<lparr>root := n\<rparr>"
    by (auto simp: drop_key_def split: sum.splits)
  from rep_erase[OF assms(2) e] obtain q s' A' where
    r: "erase_h s (hroot ch) key = Some (Inr (q, s'))" "rep s' q A' n" "A' \<subseteq> A"
    "\<forall>a. a \<notin> A \<longrightarrow> cells s' a = cells s a" "fresh s' = fresh s" by blast
  have d: "drop_h s ch key = Some (Inr (ch\<lparr>hroot := q\<rparr>, s'))"
    using r(1) by (simp add: drop_h_def)
  have "wfs s'" unfolding wfs_def
  proof (intro allI impI)
    fix a assume a: "fresh s' \<le> a"
    then have "a \<notin> A" using rep_lt[OF assms(1,2), of a] r(5) by auto
    then show "cells s' a = None" using r(4,5) a assms(1) by (simp add: wfs_def)
  qed
  then show ?thesis using d r(2,3,4) c' assms(3) by auto
qed

lemma copy_h_refines:
  assumes "wfs s" "rep s (hroot ch) A (root c)" "hcount ch = nodeCount c"
  shows "\<exists>ch' s' A'. copy_h s ch = Some (Inr (ch', s'))
           \<and> rep s' (hroot ch') A' (root (BST_copy c)) \<and> hcount ch' = nodeCount (BST_copy c)
           \<and> wfs s' \<and> A' \<inter> A = {} \<and> rep s' (hroot ch) A (root c)"
proof -
  from rep_clone[OF assms(1,2)] obtain q s' A' where
    r: "clone_h s (hroot ch) = Some (Inr (q, s'))" "rep s' q A' (clone (root c))"
    "\<forall>a \<in> A'. fresh s \<le> a \<and> a < fresh s'"
    "\<forall>a. a < fresh s \<longrightarrow> cells s' a = cells s a" "wfs s'" by blast
  have lt: "a < fresh s" if "a \<in> A" for a using rep_lt[OF assms(1,2) that] .
  have "copy_h s ch = Some (Inr (\<lparr>hroot = q, hcount = hcount ch\<rparr>, s'))"
    using r(1) by (simp add: copy_h_def)
  moreover have "A' \<inter> A = {}" using r(3) lt by fastforce
  moreover have "rep s' (hroot ch) A (root c)"
    by (rule rep_same2[OF assms(2)]) (use r(4) lt in auto)
  ultimately show ?thesis using r(2,5) assms(3) by (auto simp: BST_copy_def)
qed

subsection \<open>The nodes of a copy are its own\<close>

text \<open>
  On a store that holds a tree, the copy constructor returns and the copy holds its nodes at
  addresses the original does not use, with the same keys and values in the same shape.
  Erasing any key from the copy then returns and leaves every node that existed before the
  copy as it was: the original still holds its tree, and its traversal by iterators gives
  what it gave before.
\<close>

lemma erase_on_copy_leaves_original:
  assumes "wfs s" "ptrs_below (fresh s) s" "rep s (hroot c) A t"
  shows "\<exists>c1 s1 A1. copy_h s c = Some (Inr (c1, s1))
           \<and> rep s1 (hroot c1) A1 (clone t) \<and> inorder (clone t) = inorder t
           \<and> A1 \<inter> A = {} \<and> rep s1 (hroot c) A t
           \<and> (\<forall>key. \<exists>c2 s2. drop_h s1 c1 key = Some (Inr (c2, s2))
                 \<and> (\<forall>a. a < fresh s \<longrightarrow> cells s2 a = cells s a)
                 \<and> rep s2 (hroot c) A t
                 \<and> traversal s2 c = traversal s c)"
proof -
  from rep_clone[OF assms(1,3)] obtain q s1 A1 where
    cl: "clone_h s (hroot c) = Some (Inr (q, s1))" "rep s1 q A1 (clone t)"
    "\<forall>a \<in> A1. fresh s \<le> a \<and> a < fresh s1"
    "\<forall>a. a < fresh s \<longrightarrow> cells s1 a = cells s a" by blast
  define c1 where "c1 = \<lparr>hroot = q, hcount = hcount c\<rparr>"
  have cp: "copy_h s c = Some (Inr (c1, s1))" using cl(1) by (simp add: copy_h_def c1_def)
  have lt: "a < fresh s" if "a \<in> A" for a using rep_lt[OF assms(1,3) that] .
  have dj: "A1 \<inter> A = {}" using cl(3) lt by fastforce
  have r1: "rep s1 (hroot c) A t" by (rule rep_same2[OF assms(3)]) (use cl(4) lt in auto)
  have bl: "below (fresh s) (hroot c)" by (rule rep_below[OF assms(1,3)])
  have each: "\<exists>c2 s2. drop_h s1 c1 key = Some (Inr (c2, s2))
                 \<and> (\<forall>a. a < fresh s \<longrightarrow> cells s2 a = cells s a)
                 \<and> rep s2 (hroot c) A t
                 \<and> traversal s2 c = traversal s c" for key
  proof -
    from erase_node_hpos[OF hpos_clone, of t key] obtain t2 where
      t2: "erase_node (clone t) key = Inr t2" by blast
    from rep_erase[OF cl(2) t2] obtain q2 s2 where
      er: "erase_h s1 q key = Some (Inr (q2, s2))"
      "\<forall>a. a \<notin> A1 \<longrightarrow> cells s2 a = cells s1 a" by blast
    have dr: "drop_h s1 c1 key = Some (Inr (c1\<lparr>hroot := q2\<rparr>, s2))"
      using er(1) by (simp add: drop_h_def c1_def)
    have old: "cells s2 a = cells s a" if "a < fresh s" for a
    proof -
      from that cl(3) have "a \<notin> A1" by auto
      then show ?thesis using er(2) cl(4) that by simp
    qed
    have r2: "rep s2 (hroot c) A t" by (rule rep_same2[OF assms(3)]) (use old lt in auto)
    have "agree (fresh s) s s2" using old by (simp add: agree_def)
    from traversal_agree[OF this assms(2) bl] dr old r2 show ?thesis by blast
  qed
  have q: "rep s1 (hroot c1) A1 (clone t)" using cl(2) by (simp add: c1_def)
  have io: "inorder (clone t) = inorder t" by (rule inorder_clone)
  from each have all: "\<forall>key. \<exists>c2 s2. drop_h s1 c1 key = Some (Inr (c2, s2))
                 \<and> (\<forall>a. a < fresh s \<longrightarrow> cells s2 a = cells s a)
                 \<and> rep s2 (hroot c) A t
                 \<and> traversal s2 c = traversal s c" by blast
  from cp q io dj r1 all show ?thesis by blast
qed

text \<open>
  Claim C1 (size() equals the number of reachable nodes and the number of entries of a full
  ascending traversal, after every operation).  The private \<open>insert\<close> increments
  \<open>nodeCount\<close>, the private \<open>erase\<close> never decrements it: on the empty container,
  \<open>push(1, 10)\<close> followed by \<open>drop(1)\<close> leaves a container without nodes whose
  \<open>size()\<close> is 1.
\<close>

theorem erase_keeps_nodeCount:
  "push BST_empty (1::int) (10::int) = Inr \<lparr>root = Node Null 1 10 1 Null, nodeCount = 1\<rparr>
   \<and> drop_key \<lparr>root = Node Null (1::int) (10::int) 1 Null, nodeCount = 1\<rparr> 1
       = Inr \<lparr>root = Null, nodeCount = 1\<rparr>
   \<and> size_of \<lparr>root = (Null :: (int, int) node), nodeCount = 1\<rparr> = 1
   \<and> nodes (Null :: (int, int) node) = 0
   \<and> length (inorder (Null :: (int, int) node)) = 0"
  by (simp add: push_def drop_key_def BST_empty_def newNode_def initHeight_def size_of_def)

text \<open>
  Claim C2 (round trip).  In every state the public member functions produce, \<open>push(k, v)\<close>
  returns and the const \<open>operator[]\<close> at \<open>k\<close> then yields \<open>v\<close>; \<open>erase(k)\<close> returns and
  \<open>find(k)\<close> then yields the end position.
\<close>

theorem push_then_read_erase_then_find:
  assumes "reachable c"
  shows "(\<exists>c'. push c key val = Inr c' \<and> indexedRead c' key = (Inr val, c'))
       \<and> (\<exists>c'. erase_key c key = Inr c' \<and> find_key c' key = Null)"
proof
  from reachable_inv[OF assms] have inv: "hpos (root c)" "ordered (root c)" by simp_all
  from push_ok[OF inv, of key val] obtain c' where
    c': "push c key val = Inr c'" "ordered (root c')"
    "set (inorder (root c')) = {p \<in> set (inorder (root c)). fst p \<noteq> key} \<union> {(key, val)}"
    by blast
  from c'(3) have "(key, val) \<in> set (inorder (root c'))" by simp
  with find_node_ordered[OF c'(2), of key val] obtain l h r where
    "find_node (root c') key = Node l key val h r" by blast
  then have "indexedRead c' key = (Inr val, c')" by (simp add: indexedRead_def)
  with c'(1) show "\<exists>c'. push c key val = Inr c' \<and> indexedRead c' key = (Inr val, c')"
    by blast
  from drop_key_ok[OF inv, of key] obtain d where
    d: "drop_key c key = Inr d"
    "set (inorder (root d)) = {p \<in> set (inorder (root c)). fst p \<noteq> key}" by blast
  from d(2) have "key \<notin> keys (root d)" by (auto simp: keys_inorder)
  then have "find_key d key = Null"
    by (simp add: find_key_def find_loop_eq find_node_absent)
  with d(1) show "\<exists>c'. erase_key c key = Inr c' \<and> find_key c' key = Null"
    by (simp add: erase_key_def)
qed

text \<open>
  The round trip on the container holding the one entry (5, 50).
\<close>

theorem push_then_read_erase_then_find_witness:
  "reachable \<lparr>root = Node Null (5::int) (50::int) 1 Null, nodeCount = 1\<rparr>
   \<and> (\<exists>c'. push \<lparr>root = Node Null (5::int) (50::int) 1 Null, nodeCount = 1\<rparr> 5 70 = Inr c'
          \<and> indexedRead c' 5 = (Inr 70, c'))
   \<and> (\<exists>c'. erase_key \<lparr>root = Node Null (5::int) (50::int) 1 Null, nodeCount = 1\<rparr> 5 = Inr c'
          \<and> find_key c' 5 = Null)"
proof -
  have r: "reachable \<lparr>root = Node Null (5::int) (50::int) 1 Null, nodeCount = 1\<rparr>"
    by (rule r_push[OF r_empty, of 5 50])
       (simp add: push_def BST_empty_def newNode_def initHeight_def)
  from push_then_read_erase_then_find[OF r, of 5 70] r show ?thesis by simp
qed

text \<open>
  Claim C3 (height invariant after every public operation, copy construction included).
  \<open>clone\<close> does not copy the stored heights: the copy of the container built by
  \<open>push(1, 10)\<close>, \<open>push(2, 20)\<close>, whose root has the stored height 2, has a root with the
  stored height 1 above a child of stored height 1, so the stored height of the root is not
  1 + the maximum of its children's heights.
\<close>

theorem clone_drops_heights:
  "push BST_empty (1::int) (10::int) = Inr \<lparr>root = Node Null 1 10 1 Null, nodeCount = 1\<rparr>
   \<and> push \<lparr>root = Node Null (1::int) (10::int) 1 Null, nodeCount = 1\<rparr> 2 20
       = Inr \<lparr>root = Node Null 1 10 2 (Node Null 2 20 1 Null), nodeCount = 2\<rparr>
   \<and> avl (Node Null (1::int) (10::int) 2 (Node Null 2 20 1 Null))
   \<and> root (BST_copy \<lparr>root = Node Null (1::int) (10::int) 2 (Node Null 2 20 1 Null),
                      nodeCount = 2\<rparr>)
       = Node Null 1 10 1 (Node Null 2 20 1 Null)
   \<and> \<not> avl (Node Null (1::int) (10::int) 1 (Node Null 2 20 1 Null))"
  by (simp add: push_def BST_empty_def newNode_def initHeight_def balance_def BST_copy_def)

text \<open>
  Claim C4 (order invariant).  In every state the public member functions produce,
  \<open>push\<close>/\<open>insert\<close> and \<open>drop\<close>/\<open>erase\<close> return, and in the tree they leave every key of a left
  subtree is less than the node's key, every key of a right subtree is greater, and no key
  occurs twice.
\<close>

theorem mutation_keeps_order:
  assumes "reachable c"
  shows "(\<exists>c'. push c key val = Inr c' \<and> insert_pair c (key, val) = Inr c'
            \<and> ordered (root c') \<and> distinct (map fst (inorder (root c'))))
       \<and> (\<exists>c'. drop_key c key = Inr c' \<and> erase_key c key = Inr c'
            \<and> ordered (root c') \<and> distinct (map fst (inorder (root c'))))"
proof
  from reachable_inv[OF assms] have inv: "hpos (root c)" "ordered (root c)" by simp_all
  from push_ok[OF inv, of key val] obtain c' where
    c': "push c key val = Inr c'" "ordered (root c')" by blast
  then show "\<exists>c'. push c key val = Inr c' \<and> insert_pair c (key, val) = Inr c'
            \<and> ordered (root c') \<and> distinct (map fst (inorder (root c')))"
    using ordered_distinct[OF c'(2)] by (simp add: insert_pair_def)
  from drop_key_ok[OF inv, of key] obtain d where
    d: "drop_key c key = Inr d" "ordered (root d)" by blast
  then show "\<exists>c'. drop_key c key = Inr c' \<and> erase_key c key = Inr c'
            \<and> ordered (root c') \<and> distinct (map fst (inorder (root c')))"
    using ordered_distinct[OF d(2)] by (simp add: erase_key_def)
qed

text \<open>
  The order invariant after a mutation of the container holding the one entry (5, 50).
\<close>

theorem mutation_keeps_order_witness:
  "reachable \<lparr>root = Node Null (5::int) (50::int) 1 Null, nodeCount = 1\<rparr>
   \<and> (\<exists>c'. push \<lparr>root = Node Null (5::int) (50::int) 1 Null, nodeCount = 1\<rparr> 3 30 = Inr c'
          \<and> insert_pair \<lparr>root = Node Null (5::int) (50::int) 1 Null, nodeCount = 1\<rparr> (3, 30)
              = Inr c'
          \<and> ordered (root c') \<and> distinct (map fst (inorder (root c'))))
   \<and> (\<exists>c'. drop_key \<lparr>root = Node Null (5::int) (50::int) 1 Null, nodeCount = 1\<rparr> 3 = Inr c'
          \<and> erase_key \<lparr>root = Node Null (5::int) (50::int) 1 Null, nodeCount = 1\<rparr> 3 = Inr c'
          \<and> ordered (root c') \<and> distinct (map fst (inorder (root c'))))"
proof -
  have r: "reachable \<lparr>root = Node Null (5::int) (50::int) 1 Null, nodeCount = 1\<rparr>"
    by (rule r_push[OF r_empty, of 5 50])
       (simp add: push_def BST_empty_def newNode_def initHeight_def)
  from mutation_keeps_order[OF r, of 3 30] r show ?thesis by simp
qed

text \<open>
  Claim C6 (KeyNotFound).  The const \<open>operator[]\<close> at a key that no node of the container
  holds signals \<open>KeyNotFound\<close> and leaves the container (its count and its tree) as it was.
\<close>

theorem read_absent_key:
  assumes "key \<notin> keys (root c)"
  shows "indexedRead c key = (Inl KeyNotFound, c)"
  using find_node_absent[OF assms] by (simp add: indexedRead_def)

text \<open>
  Reading the absent key 7 in the container holding the one entry (5, 50).
\<close>

theorem read_absent_key_witness:
  "(7::int) \<notin> keys (root \<lparr>root = Node Null (5::int) (50::int) 1 Null, nodeCount = 1\<rparr>)
   \<and> indexedRead \<lparr>root = Node Null (5::int) (50::int) 1 Null, nodeCount = 1\<rparr> 7
       = (Inl KeyNotFound, \<lparr>root = Node Null 5 50 1 Null, nodeCount = 1\<rparr>)"
proof -
  have a: "(7::int) \<notin> keys (root \<lparr>root = Node Null (5::int) (50::int) 1 Null, nodeCount = 1\<rparr>)"
    by simp
  from read_absent_key[OF a] a show ?thesis by simp
qed

text \<open>
  Claim C8 (move construction leaves the source empty).  The parameter of the move
  constructor is const, so the root is copied, not moved: after the call the source has the
  count 0 and still the root it had, here a tree of one node.
\<close>

theorem move_keeps_source_root:
  "BST_move \<lparr>root = Node Null (1::int) (10::int) 1 Null, nodeCount = 1\<rparr>
     = (\<lparr>root = Node Null 1 10 1 Null, nodeCount = 1\<rparr>,
        \<lparr>root = Node Null 1 10 1 Null, nodeCount = 0\<rparr>)
   \<and> nodes (Node Null (1::int) (10::int) 1 Null) = 1"
  by (simp add: BST_move_def)

section \<open>Claims about parent links, iterators and \<open>equalRange\<close>\<close>

text \<open>
  Claim C5 (traversal from begin() by the successor rule visits every entry once, in
  increasing order).  \<open>balance\<close> resets the parent link of the node a rotation promotes, and
  its callers store that node as a child without setting the link again.  After the pushes
  of 4, 2, 6, 1, 0 the rotation at the node 2 has promoted the node 1, whose parent link is
  null although it is the left child of the root: the traversal from the leftmost node
  yields the keys 0, 1, 2 and then the end position, and never reaches 4 and 6.
\<close>

theorem traversal_stops_below_root:
  "(case push_all emptyStore hBST_empty [(4::int, 40::int), (2, 20), (6, 60), (1, 10), (0, 0)] of
      Some (Inr (c, s)) \<Rightarrow>
        hcount c = 5 \<and> hroot c = Some 0
        \<and> map (\<lambda>a. map_option (\<lambda>n. (ckey n, cleft n, cright n, cparent n)) (cells s a)) [0..<5]
            = [Some (4, Some 3, Some 2, None), Some (2, None, None, Some 3),
               Some (6, None, None, Some 0), Some (1, Some 4, Some 1, None),
               Some (0, None, None, Some 3)]
        \<and> begin_h s c = Some (Inr (Some 4))
        \<and> traversal s c = Some (Inr [(0, 0), (1, 10), (2, 20)])
    | _ \<Rightarrow> False)"
  by code_simp

text \<open>
  Claim C10 (\<open>equalRange\<close> on the empty container).  With a null root the first loop of
  \<open>equalRange\<close> dereferences the null pointer, for every key; no range is returned.
\<close>

theorem equalRange_empty_derefs_null:
  assumes "hroot c = None"
  shows "equalRange_h s c key = Some (Inl NullDeref)"
  using assms by (simp add: equalRange_h_def minValueNode_h.simps get_def)

text \<open>\<open>equalRange\<close> on the empty container, before any node is allocated.\<close>

theorem equalRange_empty_derefs_null_witness:
  "hroot hBST_empty = None
   \<and> equalRange_h (emptyStore :: (int, int) store) hBST_empty 3 = Some (Inl NullDeref)"
proof -
  have e: "hroot hBST_empty = None" by (simp add: hBST_empty_def)
  from equalRange_empty_derefs_null[OF e] e show ?thesis by simp
qed

text \<open>
  Claim C9 (copy construction makes an independent deep clone of the entire node graph).
  \<open>clone\<close> builds every node with the constructor, from the key and the value alone, and
  sets its two children: it copies neither the stored height nor the parent link.  The
  container built by the pushes of 1, 2, 3 holds the root 2 with stored height 2 and the
  children 1 and 3, whose parent links lead to the root; its traversal yields the three
  entries.  In the copy every node has the stored height 1 and a null parent link, and the
  traversal of the copy yields the entry (1, 10) alone.
\<close>

theorem clone_drops_parents_and_heights:
  "(case push_all emptyStore hBST_empty [(1::int, 10::int), (2, 20), (3, 30)] of
      Some (Inr (c, s)) \<Rightarrow>
        hroot c = Some 1
        \<and> map (\<lambda>a. map_option (\<lambda>n. (ckey n, cleft n, cright n, cparent n, cheight n))
                   (cells s a)) [0..<3]
            = [Some (1, None, None, Some 1, 1), Some (2, Some 0, Some 2, None, 2),
               Some (3, None, None, Some 1, 1)]
        \<and> traversal s c = Some (Inr [(1, 10), (2, 20), (3, 30)])
        \<and> (case copy_h s c of
              Some (Inr (c1, s1)) \<Rightarrow>
                hroot c1 = Some 3
                \<and> map (\<lambda>a. map_option (\<lambda>n. (ckey n, cleft n, cright n, cparent n, cheight n))
                           (cells s1 a)) [3..<6]
                    = [Some (2, Some 4, Some 5, None, 1), Some (1, None, None, None, 1),
                       Some (3, None, None, None, 1)]
                \<and> traversal s1 c1 = Some (Inr [(1, 10)])
                \<and> traversal s1 c = Some (Inr [(1, 10), (2, 20), (3, 30)])
            | _ \<Rightarrow> False)
    | _ \<Rightarrow> False)"
  by code_simp

end
